theory Spec2Isabelle
  imports Main "HOL-Library.Multiset"
begin


section \<open>Values of the source language\<close>

text \<open>
  Events, metadata fragments and stored records are JSON-like values of the source
  language. An object is the list of its own enumerable properties in insertion order;
  an array is an object too (\<open>typeof [] === 'object'\<close>) whose property names are the
  decimal indices \<open>''0''\<close>, \<open>''1''\<close>, ... . The functions below are the operators the
  source applies to such values: \<open>typeof\<close>, truthiness (\<open>!x\<close>, \<open>if (x)\<close>),
  \<open>Object.prototype.hasOwnProperty\<close>, reading \<open>o[key]\<close> (\<open>undefined\<close> when the
  property is absent) and writing \<open>o[key] = v\<close> (in place when the property exists,
  appended otherwise).

  Values are trees: two fragments that share one sub-object by reference, and the
  \<open>length\<close> property of arrays, are outside this model.
\<close>

datatype objkind = Plain | Array

datatype jsval =
    Undefined
  | Null
  | Bool bool
  | Num int
  | NaN
  | Str string
  | Obj objkind "(string \<times> jsval) list"

type_synonym props = "(string \<times> jsval) list"

fun typeof :: "jsval \<Rightarrow> string" where
  "typeof Undefined = ''undefined''"
| "typeof Null = ''object''"
| "typeof (Bool b) = ''boolean''"
| "typeof (Num n) = ''number''"
| "typeof NaN = ''number''"
| "typeof (Str s) = ''string''"
| "typeof (Obj k ps) = ''object''"

fun truthy :: "jsval \<Rightarrow> bool" where
  "truthy Undefined = False"
| "truthy Null = False"
| "truthy (Bool b) = b"
| "truthy (Num n) = (n \<noteq> 0)"
| "truthy NaN = False"
| "truthy (Str s) = (s \<noteq> [])"
| "truthy (Obj k ps) = True"

fun props_of :: "jsval \<Rightarrow> props" where
  "props_of (Obj k ps) = ps"
| "props_of v = []"

fun with_props :: "jsval \<Rightarrow> props \<Rightarrow> jsval" where
  "with_props (Obj k ps) qs = Obj k qs"
| "with_props v qs = v"

definition hasOwnProperty :: "props \<Rightarrow> string \<Rightarrow> bool" where
  "hasOwnProperty ps key = (map_of ps key \<noteq> None)"

definition get_prop :: "props \<Rightarrow> string \<Rightarrow> jsval" where
  "get_prop ps key = (case map_of ps key of None \<Rightarrow> Undefined | Some v \<Rightarrow> v)"

primrec set_prop :: "props \<Rightarrow> string \<Rightarrow> jsval \<Rightarrow> props" where
  "set_prop [] key v = [(key, v)]"
| "set_prop (p # ps) key v = (if fst p = key then (key, v) # ps else p # set_prop ps key v)"

text \<open>Object spread \<open>{...a, ...b}\<close>: the properties of \<open>a\<close>, then those of \<open>b\<close> written over them.\<close>

definition spread :: "props \<Rightarrow> props \<Rightarrow> props" where
  "spread a b = foldl (\<lambda>r (key, v). set_prop r key v) a b"

text \<open>
  \<open>String(value)\<close>: a string is itself, a plain object is \<open>[object Object]\<close>, an array
  is its elements joined by commas with \<open>null\<close> and \<open>undefined\<close> elements left empty.
  Numbers are integers here and are written in decimal.
\<close>

fun showNat :: "nat \<Rightarrow> string" where
  "showNat n = (if n < 10 then [''0123456789'' ! n]
                else showNat (n div 10) @ [''0123456789'' ! (n mod 10)])"

declare showNat.simps [simp del]

definition showInt :: "int \<Rightarrow> string" where
  "showInt i = (if i < 0 then CHR ''-'' # showNat (nat (- i)) else showNat (nat i))"

fun jsString :: "jsval \<Rightarrow> string" and joinElements :: "props \<Rightarrow> string" where
  "jsString Undefined = ''undefined''"
| "jsString Null = ''null''"
| "jsString (Bool b) = (if b then ''true'' else ''false'')"
| "jsString (Num n) = showInt n"
| "jsString NaN = ''NaN''"
| "jsString (Str s) = s"
| "jsString (Obj Plain ps) = ''[object Object]''"
| "jsString (Obj Array ps) = joinElements ps"
| "joinElements [] = []"
| "joinElements ((key, v) # ps) =
     (if v = Null \<or> v = Undefined then [] else jsString v)
     @ (if ps = [] then [] else CHR '','' # joinElements ps)"


section \<open>Storage capability (browserStorage.ts)\<close>

text \<open>
  \<open>get(keys, callback)\<close> takes one key, a list of keys or \<open>null\<close>. Both in-repository
  implementations call the callback synchronously, exactly once, so \<open>get\<close> is modelled
  by the map it hands to the callback and \<open>set\<close> by the new store.
\<close>

datatype keys = Key string | Keys "string list" | NullKeys

text \<open>
  \<^verbatim>\<open>const thunkStorage = { data: {},
    set: function (items, callback) { this.data = { ...this.data, ...items }; ... },
    get: function (keys, callback) {
      let result = {};
      if (Array.isArray(keys)) {
        keys.forEach(key => { if (hasOwnProperty.call(this.data, key)) result[key] = this.data[key]; });
      } else if (typeof keys === 'string') {
        if (hasOwnProperty.call(this.data, keys)) result[keys] = this.data[keys];
      } else { result = { ...this.data }; }
      if (callback) callback(result); } }\<close>
\<close>

definition thunkStorage_set :: "props \<Rightarrow> props \<Rightarrow> props" where
  "thunkStorage_set data items = spread data items"

definition thunkStorage_pick :: "props \<Rightarrow> props \<Rightarrow> string \<Rightarrow> props" where
  "thunkStorage_pick data result key =
     (if hasOwnProperty data key then set_prop result key (get_prop data key) else result)"

fun thunkStorage_get :: "props \<Rightarrow> keys \<Rightarrow> props" where
  "thunkStorage_get data (Keys ks) = foldl (thunkStorage_pick data) [] ks"
| "thunkStorage_get data (Key k) = thunkStorage_pick data [] k"
| "thunkStorage_get data NullKeys = spread [] data"

text \<open>
  \<^verbatim>\<open>function getWithCallback (getItem) {
    function get (items, callback = () => {}) {
      if (typeof items === 'string') { items = [items]; }
      const results = {};
      for (const item of items ?? []) { results[item] = getItem(item); }
      callback(results); }
    return get; }
  function setWithCallback (setItem) {
    function set (items, callback = () => {}) {
      for (const item in items) { setItem(item, items[item]); }
      if (callback) callback(); }
    return set; }\<close>
  \<open>setItem\<close> is applied to a store and returns the new store.
\<close>

definition getWithCallback :: "(string \<Rightarrow> jsval) \<Rightarrow> keys \<Rightarrow> props" where
  "getWithCallback getItem items =
     (let items1 = (case items of Key s \<Rightarrow> Keys [s] | other \<Rightarrow> other);
          items2 = (case items1 of Keys ks \<Rightarrow> ks | Key s \<Rightarrow> [s] | NullKeys \<Rightarrow> [])
      in foldl (\<lambda>results item. set_prop results item (getItem item)) [] items2)"

definition setWithCallback :: "('s \<Rightarrow> string \<Rightarrow> jsval \<Rightarrow> 's) \<Rightarrow> 's \<Rightarrow> props \<Rightarrow> 's" where
  "setWithCallback setItem store items = foldl (\<lambda>s (item, v). setItem s item v) store items"

text \<open>
  \<open>localStorage\<close> holds strings: \<open>getItem\<close> returns the stored string or \<open>null\<close>, and
  the wrapper stores \<open>String(value)\<close>:
  \<^verbatim>\<open>storage = {
    get: getWithCallback(localStorage.getItem.bind(localStorage)),
    set: setWithCallback((key, value) => localStorage.setItem(key, String(value))) };\<close>
\<close>

type_synonym localStorage = "(string \<times> string) list"

definition localStorage_getItem :: "localStorage \<Rightarrow> string \<Rightarrow> jsval" where
  "localStorage_getItem store key = (case map_of store key of None \<Rightarrow> Null | Some s \<Rightarrow> Str s)"

primrec localStorage_setItem :: "localStorage \<Rightarrow> string \<Rightarrow> string \<Rightarrow> localStorage" where
  "localStorage_setItem [] key s = [(key, s)]"
| "localStorage_setItem (p # ps) key s =
     (if fst p = key then (key, s) # ps else p # localStorage_setItem ps key s)"

text \<open>
  The exported \<open>storage\<close> object is chosen by the environment: \<open>thunkStorage\<close>, or the
  wrapper around \<open>localStorage\<close> (a page in a browser without the \<open>chrome\<close> and
  \<open>browser\<close> globals). The extension stores \<open>chrome.storage.*\<close> are external and not
  modelled.
\<close>

datatype StorageBackend = ThunkStorage props | LocalStorage localStorage

fun storage_get :: "StorageBackend \<Rightarrow> keys \<Rightarrow> props" where
  "storage_get (ThunkStorage data) ks = thunkStorage_get data ks"
| "storage_get (LocalStorage store) ks = getWithCallback (localStorage_getItem store) ks"

fun storage_set :: "StorageBackend \<Rightarrow> props \<Rightarrow> StorageBackend" where
  "storage_set (ThunkStorage data) items = ThunkStorage (thunkStorage_set data items)"
| "storage_set (LocalStorage store) items =
     LocalStorage (setWithCallback (\<lambda>s key v. localStorage_setItem s key (jsString v)) store items)"


section \<open>Utilities (util.ts)\<close>

subsection \<open>timestampEvent\<close>

text \<open>
  Module state of util.ts (\<open>verboseEvents\<close>, \<open>eventIndex\<close>, \<open>sessionStamp\<close>,
  \<open>cachedBrowserStamp\<close>) together with the \<open>storage\<close> object.
  \<open>Host\<close> holds what the platform returns during one call: \<open>new Date().toISOString()\<close>,
  \<open>Date.now()\<close>, \<open>Date()\<close> and the key \<open>keystamp()\<close> would generate.
\<close>

record UtilState =
  verboseEvents :: bool
  eventIndex :: int
  sessionStamp :: string
  cachedBrowserStamp :: jsval
  storageData :: StorageBackend

record Host =
  isoNow :: string
  msNow :: int
  humanNow :: string
  newStamp :: string

definition browserStamp :: "Host \<Rightarrow> UtilState \<Rightarrow> jsval \<times> UtilState" where
  "browserStamp h u =
     (if truthy (cachedBrowserStamp u) then (cachedBrowserStamp u, u)
      else
        let u1 = u\<lparr>cachedBrowserStamp := Str (newStamp h)\<rparr>;
            result = storage_get (storageData u1) (Keys [''loBrowserStamp'']);
            u2 = (if truthy (get_prop result ''loBrowserStamp'')
                  then u1\<lparr>cachedBrowserStamp := get_prop result ''loBrowserStamp''\<rparr>
                  else u1\<lparr>storageData :=
                         storage_set (storageData u1)
                           [(''loBrowserStamp'', cachedBrowserStamp u1)]\<rparr>)
        in (cachedBrowserStamp u2, u2))"

text \<open>
  \<^verbatim>\<open>export function timestampEvent (event) {
    if (!event.metadata) { event.metadata = {}; }
    const metadata = event.metadata;
    metadata.iso_ts = new Date().toISOString();
    if (verboseEvents) {
      metadata.ts = Date.now();
      metadata.human_ts = Date();
      metadata.sessionIndex = eventIndex++;
      metadata.sessionTag = sessionStamp;
      metadata.browserTag = browserStamp(); } }\<close>
  The event is mutated in place; the model returns the event after the call. When
  \<open>event.metadata\<close> is a truthy primitive, the first assignment raises a TypeError (module
  code is strict) before anything was written.
\<close>

datatype fault = TypeError

definition stampVerbose :: "Host \<Rightarrow> UtilState \<Rightarrow> props \<Rightarrow> props \<times> UtilState" where
  "stampVerbose h u metadata =
     (let m1 = set_prop metadata ''ts'' (Num (msNow h));
          m2 = set_prop m1 ''human_ts'' (Str (humanNow h));
          m3 = set_prop m2 ''sessionIndex'' (Num (eventIndex u));
          u1 = u\<lparr>eventIndex := eventIndex u + 1\<rparr>;
          m4 = set_prop m3 ''sessionTag'' (Str (sessionStamp u1));
          (tag, u2) = browserStamp h u1
      in (set_prop m4 ''browserTag'' tag, u2))"

definition timestampEvent :: "Host \<Rightarrow> UtilState \<Rightarrow> props \<Rightarrow> fault option \<times> props \<times> UtilState" where
  "timestampEvent h u event =
     (let event1 = (if \<not> truthy (get_prop event ''metadata'')
                    then set_prop event ''metadata'' (Obj Plain [])
                    else event)
      in case get_prop event1 ''metadata'' of
           Obj kind metadata \<Rightarrow>
             (let m1 = set_prop metadata ''iso_ts'' (Str (isoNow h));
                  (m2, u1) = (if verboseEvents u then stampVerbose h u m1 else (m1, u))
              in (None, set_prop event1 ''metadata'' (Obj kind m2), u1))
         | primitive \<Rightarrow> (Some TypeError, event1, u))"

text \<open>The keys \<open>timestampEvent\<close> writes inside \<open>metadata\<close>.\<close>

definition stampedKeys :: "UtilState \<Rightarrow> string set" where
  "stampedKeys u =
     (if verboseEvents u
      then {''iso_ts'', ''ts'', ''human_ts'', ''sessionIndex'', ''sessionTag'', ''browserTag''}
      else {''iso_ts''})"

subsection \<open>mergeDictionary and mergeMetadata\<close>

text \<open>
  \<^verbatim>\<open>export function mergeDictionary (target, source) {
    for (const key in source) {
      if (Object.prototype.hasOwnProperty.call(target, key) &&
          typeof target[key] === 'object' && target[key] !== null &&
          typeof source[key] === 'object' && source[key] !== null) {
        mergeDictionary(target[key], source[key]);
      } else { target[key] = source[key]; } } }\<close>
  The target is mutated in place; the model returns it after the call. The inner call
  leaves \<open>target[key]\<close> the object it was, with merged properties.
\<close>

abbreviation props_size :: "props \<Rightarrow> nat" where
  "props_size \<equiv> size_list (size_prod (\<lambda>_. 0) size)"

lemma props_of_size: "props_size (props_of v) \<le> size v"
  by (cases v) auto

function mergeDictionary :: "props \<Rightarrow> props \<Rightarrow> props" where
  "mergeDictionary target [] = target"
| "mergeDictionary target ((key, v) # source) =
     mergeDictionary
       (if hasOwnProperty target key
           \<and> typeof (get_prop target key) = ''object'' \<and> get_prop target key \<noteq> Null
           \<and> typeof v = ''object'' \<and> v \<noteq> Null
        then set_prop target key
               (with_props (get_prop target key)
                  (mergeDictionary (props_of (get_prop target key)) (props_of v)))
        else set_prop target key v)
       source"
  by pat_completeness auto
termination
  apply (relation "measure (\<lambda>(target, source). props_size source)")
    apply simp
  subgoal for target key v source
    using props_of_size [of v] by simp
  apply simp
  done

text \<open>
  \<^verbatim>\<open>export async function mergeMetadata (inputList) {
    const masterDict = {};
    for (const item of inputList) {
      let result;
      if (typeof item === 'object') { mergeDictionary(masterDict, item); }
      else if (typeof item === 'function') {
        result = await item();
        if (typeof result === 'object') { mergeDictionary(masterDict, result); }
        else { console.log('Ignoring non-dictionary result:', result); } }
      else { console.log('Ignoring invalid item:', item); } }
    return masterDict; }\<close>
  An input is a value or a function; a function is given by what awaiting its call
  produces. A \<open>for ... in\<close> over \<open>null\<close> has no iterations.
\<close>

datatype supplied = Yields jsval | Throws

datatype MetadataInput = Dict jsval | Func supplied

datatype rejection = Rejected

definition mergeItem :: "props \<Rightarrow> jsval \<Rightarrow> props" where
  "mergeItem masterDict item =
     (if typeof item = ''object'' then mergeDictionary masterDict (props_of item)
      else masterDict)"

fun mergeMetadataFrom :: "props \<Rightarrow> MetadataInput list \<Rightarrow> rejection + props" where
  "mergeMetadataFrom masterDict [] = Inr masterDict"
| "mergeMetadataFrom masterDict (Dict item # inputList) =
     mergeMetadataFrom (mergeItem masterDict item) inputList"
| "mergeMetadataFrom masterDict (Func (Yields result) # inputList) =
     mergeMetadataFrom (mergeItem masterDict result) inputList"
| "mergeMetadataFrom masterDict (Func Throws # inputList) = Inl Rejected"

definition mergeMetadata :: "MetadataInput list \<Rightarrow> rejection + props" where
  "mergeMetadata inputList = mergeMetadataFrom [] inputList"

text \<open>The value \<open>mergeDictionary\<close> leaves under \<open>key\<close> when the source holds \<open>v\<close> there.\<close>

definition mergedValue :: "props \<Rightarrow> string \<Rightarrow> jsval \<Rightarrow> jsval" where
  "mergedValue target key v =
     (if hasOwnProperty target key
         \<and> typeof (get_prop target key) = ''object'' \<and> get_prop target key \<noteq> Null
         \<and> typeof v = ''object'' \<and> v \<noteq> Null
      then with_props (get_prop target key)
             (mergeDictionary (props_of (get_prop target key)) (props_of v))
      else v)"


section \<open>The once decorator (util.ts)\<close>

text \<open>
  \<^verbatim>\<open>export function once(func) {
    let run = false;
    return function (...args) {
      if (!run) { run = true; return func.apply(this, args); }
      else { console.log('>>>> Function called more than once. ...');
             throw new Error('Error! Function was called more than once! ...'); } } }\<close>
  The closure variable \<open>run\<close> is passed in and returned.
\<close>

datatype onceError = CalledMoreThanOnce

definition once :: "('a \<Rightarrow> 'b) \<Rightarrow> bool \<Rightarrow> 'a \<Rightarrow> onceError + (bool \<times> 'b)" where
  "once func run args = (if \<not> run then Inr (True, func args) else Inl CalledMoreThanOnce)"


section \<open>Persistent queue backend (indexeddbQueue.ts)\<close>

text \<open>
  A queue item is an opaque value. \<open>dequeue()\<close> returns a promise; promises are numbered,
  and an operation returns, next to the new state, the promises it settles and how.
\<close>

type_synonym item = jsval

datatype settled = Fulfilled item | Failed

type_synonym settlement = "nat \<times> settled"

text \<open>
  \<open>DBOperation\<close>: \<open>{operation: ENQUEUE, payload}\<close> or \<open>{operation: DEQUEUE, resolve,
  reject}\<close>, the latter named by the promise it settles.

  The object store is the list of its rows in ascending key order; keys come from the
  autoIncrement generator. Every \<open>addItemToDB\<close> and \<open>nextItemFromDB\<close> opens a readwrite
  transaction on the one store and places one request; neither waits for its request,
  whose \<open>onsuccess\<close>/\<open>onerror\<close> fires in a later task. IndexedDB runs readwrite
  transactions on one store one at a time in the order of their creation, so the
  pending requests form a queue, completed from the front. \<open>addCalls\<close> counts the calls
  of \<open>objectStore.add\<close> (a write probe).
\<close>

datatype DBOperation = ENQUEUE item | DEQUEUE nat

datatype IDBRequest = Add item | OpenCursor nat

record IdbQueue =
  db :: bool
  dbOperationQueue :: "DBOperation list"
  nextDBOperationPromise :: bool
  nextItemPromise :: "nat option"
  rows :: "(nat \<times> item) list"
  nextKey :: nat
  requests :: "IDBRequest list"
  addCalls :: nat

text \<open>
  \<^verbatim>\<open>constructor (queueName) {
    this.db = null; this.dbOperationQueue = [];
    this.nextDBOperationPromise = null; this.nextItemPromise = null; ...
    this.initialize(); }
  async initialize () { ... request = indexedDB.open(this.queueName, 1); ... }\<close>
  The constructor opens the database of the queue's name. Its object store is the one
  the browser keeps under that name: the rows an earlier session left there, in key
  order, and the key generator where that session left it (a new database has no rows).
\<close>

record ObjectStore =
  storedRows :: "(nat \<times> item) list"
  keyGenerator :: nat

definition newIdbQueue :: "ObjectStore \<Rightarrow> IdbQueue" where
  "newIdbQueue persisted =
     \<lparr>db = False, dbOperationQueue = [], nextDBOperationPromise = False,
      nextItemPromise = None, rows = storedRows persisted, nextKey = keyGenerator persisted,
      requests = [], addCalls = 0\<rparr>"

text \<open>
  \<^verbatim>\<open>async addItemToDB (op) {
    const payload = op.payload;
    if (this.nextItemPromise) {
      this.nextItemPromise(payload.payload); this.nextItemPromise = null; return; }
    const transaction = this.db.transaction([this.queueName], 'readwrite');
    const objectStore = transaction.objectStore(this.queueName);
    const request = objectStore.add(payload); ... }\<close>
\<close>

definition addItemToDB :: "item \<Rightarrow> IdbQueue \<Rightarrow> IdbQueue \<times> settlement list" where
  "addItemToDB payload b =
     (case nextItemPromise b of
        Some r \<Rightarrow> (b\<lparr>nextItemPromise := None\<rparr>, [(r, Fulfilled payload)])
      | None \<Rightarrow> (b\<lparr>requests := requests b @ [Add payload], addCalls := addCalls b + 1\<rparr>, []))"

text \<open>
  \<^verbatim>\<open>async nextItemFromDB (op) {
    const { resolve, reject } = op;
    const transaction = this.db.transaction([this.queueName], 'readwrite');
    const objectStore = transaction.objectStore(this.queueName);
    const request = objectStore.openCursor();
    request.onsuccess = () => { ... };  request.onerror = () => { ... }; }\<close>
\<close>

definition nextItemFromDB :: "nat \<Rightarrow> IdbQueue \<Rightarrow> IdbQueue \<times> settlement list" where
  "nextItemFromDB r b = (b\<lparr>requests := requests b @ [OpenCursor r]\<rparr>, [])"

fun dbOperationDispatch :: "DBOperation \<Rightarrow> IdbQueue \<Rightarrow> IdbQueue \<times> settlement list" where
  "dbOperationDispatch (ENQUEUE payload) b = addItemToDB payload b"
| "dbOperationDispatch (DEQUEUE r) b = nextItemFromDB r b"

text \<open>
  \<^verbatim>\<open>async * _nextDBOperation () {
    while (true) {
      let operation;
      if (this.dbOperationQueue.length > 0) { operation = this.dbOperationQueue.shift(); }
      else { operation = await new Promise(resolve => { this.nextDBOperationPromise = resolve; }); }
      yield operation; } }
  async startProcessing () {
    const dbOperationStream = this.nextDBOperation();
    for await (const operation of dbOperationStream) {
      try { await this.dbOperationDispatch[operation.operation](operation); }
      catch (error) { debug.error('Unable to perform operation on DB', error); } } }\<close>
  \<open>processOperations\<close> is the \<open>for await\<close> loop over the operations it is given;
  \<open>runProcessing handed\<close> runs the loop from where it stands (with the operation handed to
  the suspended generator, if any, then the queued ones) until the generator suspends
  again on an empty \<open>dbOperationQueue\<close>. The loop runs in microtasks, so it has
  suspended again before the next task (a caller's next turn or a request's completion).
\<close>

fun processOperations :: "DBOperation list \<Rightarrow> IdbQueue \<Rightarrow> IdbQueue \<times> settlement list" where
  "processOperations [] b = (b, [])"
| "processOperations (operation # operations) b =
     (let (b1, out1) = dbOperationDispatch operation b;
          (b2, out2) = processOperations operations b1
      in (b2, out1 @ out2))"

definition runProcessing :: "DBOperation list \<Rightarrow> IdbQueue \<Rightarrow> IdbQueue \<times> settlement list" where
  "runProcessing handed b =
     (let (b1, out) = processOperations (handed @ dbOperationQueue b) (b\<lparr>dbOperationQueue := []\<rparr>)
      in (b1\<lparr>nextDBOperationPromise := True\<rparr>, out))"

text \<open>
  \<^verbatim>\<open>addItemToDBOperationQueue (payload) {
    if (this.nextDBOperationPromise) {
      this.nextDBOperationPromise(payload); this.nextDBOperationPromise = null; }
    else { this.dbOperationQueue.push(payload); } }
  enqueue (item) { this.addItemToDBOperationQueue({ operation: ENQUEUE, payload: { payload: item } }); }
  dequeue () { return new Promise((resolve, reject) => {
      this.addItemToDBOperationQueue({ operation: DEQUEUE, resolve, reject }); }); }\<close>
\<close>

definition addItemToDBOperationQueue :: "DBOperation \<Rightarrow> IdbQueue \<Rightarrow> IdbQueue \<times> settlement list" where
  "addItemToDBOperationQueue payload b =
     (if nextDBOperationPromise b
      then runProcessing [payload] (b\<lparr>nextDBOperationPromise := False\<rparr>)
      else (b\<lparr>dbOperationQueue := dbOperationQueue b @ [payload]\<rparr>, []))"

definition idb_enqueue :: "item \<Rightarrow> IdbQueue \<Rightarrow> IdbQueue \<times> settlement list" where
  "idb_enqueue item b = addItemToDBOperationQueue (ENQUEUE item) b"

definition idb_dequeue :: "nat \<Rightarrow> IdbQueue \<Rightarrow> IdbQueue \<times> settlement list" where
  "idb_dequeue r b = addItemToDBOperationQueue (DEQUEUE r) b"

text \<open>
  \<open>indexedDB.open\<close> succeeds: \<^verbatim>\<open>request.onsuccess = () => { this.db = request.result;
  this.startProcessing(); }\<close>. It fires once.
\<close>

definition openSucceeds :: "IdbQueue \<Rightarrow> IdbQueue \<times> settlement list" where
  "openSucceeds b = (if db b then (b, []) else runProcessing [] (b\<lparr>db := True\<rparr>))"

text \<open>
  The oldest pending request succeeds. For \<open>objectStore.add\<close> the row is stored under the
  next key. For \<open>openCursor\<close>:
  \<^verbatim>\<open>request.onsuccess = () => {
    const cursor = request.result;
    if (cursor) {
      const item = cursor.value;
      const deleteRequest = objectStore.delete(cursor.key);
      deleteRequest.onsuccess = () => { resolve(item.payload); }; ... }
    else { resolve(new Promise((resolve) => { this.nextItemPromise = resolve; })); } };\<close>
  The cursor stands on the row with the lowest key. The delete runs in the cursor's own
  transaction, so no other request comes between the two.
\<close>

definition requestSucceeds :: "IdbQueue \<Rightarrow> IdbQueue \<times> settlement list" where
  "requestSucceeds b =
     (case requests b of
        [] \<Rightarrow> (b, [])
      | Add payload # rest \<Rightarrow>
          (b\<lparr>requests := rest, rows := rows b @ [(nextKey b, payload)],
             nextKey := nextKey b + 1\<rparr>, [])
      | OpenCursor r # rest \<Rightarrow>
          (case rows b of
             [] \<Rightarrow> (b\<lparr>requests := rest, nextItemPromise := Some r\<rparr>, [])
           | (key, payload) # others \<Rightarrow>
               (b\<lparr>requests := rest, rows := others\<rparr>, [(r, Fulfilled payload)])))"

text \<open>
  The oldest pending request fails: a failed \<open>add\<close> is logged and its item is gone; a
  failed cursor or delete calls \<open>reject\<close> and the transaction leaves the rows as they were.
\<close>

definition requestFails :: "IdbQueue \<Rightarrow> IdbQueue \<times> settlement list" where
  "requestFails b =
     (case requests b of
        [] \<Rightarrow> (b, [])
      | Add payload # rest \<Rightarrow> (b\<lparr>requests := rest\<rparr>, [])
      | OpenCursor r # rest \<Rightarrow> (b\<lparr>requests := rest\<rparr>, [(r, Failed)]))"


section \<open>In-memory queue backend\<close>

text \<open>
  Modelled from the spec: \<open>memoryQueue.js\<close>, imported by \<open>queue.js\<close>, is not among the source
  files. The spec (section 3): \<open>InMemory\<close> is a "simple array-backed FIFO" that
  satisfies "\<open>enqueue(item): void\<close> (non-suspending) and \<open>dequeue(): item\<close> (suspends until
  available)".
\<close>

record MemoryQueue =
  queued :: "item list"
  waiting :: "nat option"

definition newMemoryQueue :: MemoryQueue where
  "newMemoryQueue = \<lparr>queued = [], waiting = None\<rparr>"

definition memory_enqueue :: "item \<Rightarrow> MemoryQueue \<Rightarrow> MemoryQueue \<times> settlement list" where
  "memory_enqueue item m =
     (case waiting m of
        Some r \<Rightarrow> (m\<lparr>waiting := None\<rparr>, [(r, Fulfilled item)])
      | None \<Rightarrow> (m\<lparr>queued := queued m @ [item]\<rparr>, []))"

definition memory_dequeue :: "nat \<Rightarrow> MemoryQueue \<Rightarrow> MemoryQueue \<times> settlement list" where
  "memory_dequeue r m =
     (case queued m of
        [] \<Rightarrow> (m\<lparr>waiting := Some r\<rparr>, [])
      | item # others \<Rightarrow> (m\<lparr>queued := others\<rparr>, [(r, Fulfilled item)]))"


section \<open>Queue and its dequeue loop (queue.js)\<close>

text \<open>
  \<^verbatim>\<open>const queueClasses = { [QueueType.IN_MEMORY]: memoryQueue.Queue,
                         [QueueType.PERSISTENT]: indexeddbQueue.Queue };\<close>
\<close>

datatype backend = IN_MEMORY MemoryQueue | PERSISTENT IdbQueue

fun backend_enqueue :: "item \<Rightarrow> backend \<Rightarrow> backend \<times> settlement list" where
  "backend_enqueue item (IN_MEMORY m) = (let (m1, out) = memory_enqueue item m in (IN_MEMORY m1, out))"
| "backend_enqueue item (PERSISTENT b) = (let (b1, out) = idb_enqueue item b in (PERSISTENT b1, out))"

fun backend_dequeue :: "nat \<Rightarrow> backend \<Rightarrow> backend \<times> settlement list" where
  "backend_dequeue r (IN_MEMORY m) = (let (m1, out) = memory_dequeue r m in (IN_MEMORY m1, out))"
| "backend_dequeue r (PERSISTENT b) = (let (b1, out) = idb_dequeue r b in (PERSISTENT b1, out))"

text \<open>
  The configuration of \<open>startDequeueLoop\<close>. Each callback is given by what awaiting its
  call produces: a value, or a raised fault. \<open>shouldDequeue\<close> and \<open>onDequeue\<close> may answer
  differently from call to call, so they take the number of earlier calls. \<open>onError\<close>
  is the reporter; the model records the messages it is given.
\<close>

datatype 'a awaited = Returns 'a | Raises

record DequeueLoopConfig =
  initialize :: "bool awaited"
  shouldDequeue :: "nat \<Rightarrow> bool awaited"
  onDequeue :: "nat \<Rightarrow> item \<Rightarrow> unit awaited"

text \<open>
  Where the loop stands: not started; \<open>Idle\<close>, before the next \<open>await shouldDequeue()\<close>;
  \<open>Awaiting p\<close>, suspended in \<open>await this.queue.dequeue()\<close> on promise \<open>p\<close>;
  \<open>Returned\<close>, after one of the two \<open>return\<close> statements; \<open>Rejected_dequeue\<close>, after
  the awaited promise was rejected (the \<open>await\<close> stands outside the \<open>try\<close> blocks).
\<close>

datatype loop_status = NotStarted | Idle | Awaiting nat | Returned | Rejected_dequeue

record Queue =
  backend :: backend
  run :: bool
  status :: loop_status
  delivered :: "item list"
  reported :: "string list"
  shouldCalls :: nat
  promises :: nat

text \<open>
  \<^verbatim>\<open>async startDequeueLoop ({ initialize, shouldDequeue, onDequeue, onError }) {
    try { if (!await initialize()) { throw new Error('... returned false.'); } }
    catch (error) {
      onError('QUEUE ERROR: Failure to initialize before starting dequeue loop', error);
      return; }
    while (true) {
      try { if (!await shouldDequeue()) { throw new Error('... returned false.'); } }
      catch (error) { onError('QUEUE ERROR: Not allowed to start dequeueing', error); return; }
      const item = await this.queue.dequeue();
      try { if (item !== null) { await onDequeue(item); } }
      catch (error) { onError('QUEUE ERROR: Unable to process item', error); } } }\<close>
  The loop is cut at its suspension points. \<open>startDequeueLoop\<close> runs it to the first
  \<open>await shouldDequeue()\<close>; \<open>loopIteration\<close> runs it from there into
  \<open>await this.queue.dequeue()\<close>; \<open>resumeLoop\<close> runs it from the settled promise through
  \<open>onDequeue\<close> back to the top of the loop. \<open>delivered\<close> lists the arguments of the calls of
  \<open>onDequeue\<close>, in order.
\<close>

definition startDequeueLoop :: "DequeueLoopConfig \<Rightarrow> Queue \<Rightarrow> Queue" where
  "startDequeueLoop cfg q =
     (case initialize cfg of
        Returns True \<Rightarrow> q\<lparr>status := Idle\<rparr>
      | other \<Rightarrow>
          q\<lparr>reported := reported q @ [''QUEUE ERROR: Failure to initialize before starting dequeue loop''],
            status := Returned\<rparr>)"

definition resumeLoop :: "DequeueLoopConfig \<Rightarrow> Queue \<Rightarrow> settlement \<Rightarrow> Queue" where
  "resumeLoop cfg q s =
     (if status q = Awaiting (fst s)
      then (case snd s of
              Failed \<Rightarrow> q\<lparr>status := Rejected_dequeue\<rparr>
            | Fulfilled item \<Rightarrow>
                if item \<noteq> Null
                then (case onDequeue cfg (length (delivered q)) item of
                        Raises \<Rightarrow>
                          q\<lparr>delivered := delivered q @ [item],
                            reported := reported q @ [''QUEUE ERROR: Unable to process item''],
                            status := Idle\<rparr>
                      | Returns u \<Rightarrow> q\<lparr>delivered := delivered q @ [item], status := Idle\<rparr>)
                else q\<lparr>status := Idle\<rparr>)
      else q)"

definition settle :: "DequeueLoopConfig \<Rightarrow> Queue \<Rightarrow> backend \<times> settlement list \<Rightarrow> Queue" where
  "settle cfg q result = foldl (resumeLoop cfg) (q\<lparr>backend := fst result\<rparr>) (snd result)"

definition loopIteration :: "DequeueLoopConfig \<Rightarrow> Queue \<Rightarrow> Queue" where
  "loopIteration cfg q =
     (if status q = Idle
      then (case shouldDequeue cfg (shouldCalls q) of
              Returns True \<Rightarrow>
                settle cfg
                  (q\<lparr>status := Awaiting (promises q), promises := promises q + 1,
                     shouldCalls := shouldCalls q + 1\<rparr>)
                  (backend_dequeue (promises q) (backend q))
            | other \<Rightarrow>
                q\<lparr>reported := reported q @ [''QUEUE ERROR: Not allowed to start dequeueing''],
                  status := Returned, shouldCalls := shouldCalls q + 1\<rparr>)
      else q)"

text \<open>
  \<^verbatim>\<open>constructor (queueName, { queueType = QueueType.AUTODETECT } = {}) {
    this.queue = null;
    if (queueType === QueueType.AUTODETECT) { queueType = autodetect(); }
    const QueueClass = queueClasses[queueType];
    if (QueueClass) { this.queue = new QueueClass(queueName); }
    else { throw new Error('Invalid queue type'); }
    this.enqueue = this.enqueue.bind(this);
    this.startDequeueLoop = util.once(this.startDequeueLoop.bind(this)); }
  enqueue (item) { this.queue.enqueue(item); }\<close>
  \<open>autodetect\<close> answers \<open>PERSISTENT\<close> exactly when \<open>indexedDB\<close> is defined.
\<close>

datatype QueueType = AUTODETECT | IN_MEMORY_TYPE | PERSISTENT_TYPE | OtherType string

datatype queueError = InvalidQueueType

definition autodetect :: "bool \<Rightarrow> QueueType" where
  "autodetect indexedDB_defined = (if indexedDB_defined then PERSISTENT_TYPE else IN_MEMORY_TYPE)"

definition queueOver :: "backend \<Rightarrow> Queue" where
  "queueOver b = \<lparr>backend = b, run = False, status = NotStarted, delivered = [],
                   reported = [], shouldCalls = 0, promises = 0\<rparr>"

definition newQueue :: "bool \<Rightarrow> ObjectStore \<Rightarrow> QueueType \<Rightarrow> queueError + Queue" where
  "newQueue indexedDB_defined persisted queueType =
     (case (if queueType = AUTODETECT then autodetect indexedDB_defined else queueType) of
        IN_MEMORY_TYPE \<Rightarrow> Inr (queueOver (IN_MEMORY newMemoryQueue))
      | PERSISTENT_TYPE \<Rightarrow> Inr (queueOver (PERSISTENT (newIdbQueue persisted)))
      | other \<Rightarrow> Inl InvalidQueueType)"

definition Queue_enqueue :: "DequeueLoopConfig \<Rightarrow> item \<Rightarrow> Queue \<Rightarrow> Queue" where
  "Queue_enqueue cfg item q = settle cfg q (backend_enqueue item (backend q))"

text \<open>The method \<open>startDequeueLoop\<close> as the constructor leaves it: wrapped in \<open>once\<close>.\<close>

definition Queue_startDequeueLoop :: "DequeueLoopConfig \<Rightarrow> Queue \<Rightarrow> onceError + Queue" where
  "Queue_startDequeueLoop cfg q =
     (case once (\<lambda>config. startDequeueLoop config q) (run q) cfg of
        Inl e \<Rightarrow> Inl e
      | Inr (r, q1) \<Rightarrow> Inr (q1\<lparr>run := r\<rparr>))"

text \<open>
  What happens to a queue, one task at a time: a producer calls \<open>enqueue\<close>; the owner
  calls \<open>startDequeueLoop\<close> (a call that throws leaves the queue as it was); the loop,
  its callbacks having completed, goes through \<open>shouldDequeue\<close> into \<open>dequeue\<close>; the
  database opens; the oldest pending store request succeeds or fails. The last three
  concern the persistent backend only.
\<close>

datatype event = Enqueue item | Start | Poll | DbOpen | RequestDone | RequestError

fun backend_event :: "event \<Rightarrow> backend \<Rightarrow> backend \<times> settlement list" where
  "backend_event DbOpen (PERSISTENT b) = (let (b1, out) = openSucceeds b in (PERSISTENT b1, out))"
| "backend_event RequestDone (PERSISTENT b) = (let (b1, out) = requestSucceeds b in (PERSISTENT b1, out))"
| "backend_event RequestError (PERSISTENT b) = (let (b1, out) = requestFails b in (PERSISTENT b1, out))"
| "backend_event e other = (other, [])"

fun step :: "DequeueLoopConfig \<Rightarrow> Queue \<Rightarrow> event \<Rightarrow> Queue" where
  "step cfg q (Enqueue item) = Queue_enqueue cfg item q"
| "step cfg q Start = (case Queue_startDequeueLoop cfg q of Inl e \<Rightarrow> q | Inr q1 \<Rightarrow> q1)"
| "step cfg q Poll = loopIteration cfg q"
| "step cfg q e = settle cfg q (backend_event e (backend q))"

definition runEvents :: "DequeueLoopConfig \<Rightarrow> Queue \<Rightarrow> event list \<Rightarrow> Queue" where
  "runEvents cfg q events = foldl (step cfg) q events"

text \<open>The items passed to \<open>enqueue\<close>, in call order.\<close>

fun enqueued :: "event list \<Rightarrow> item list" where
  "enqueued [] = []"
| "enqueued (Enqueue item # events) = item # enqueued events"
| "enqueued (e # events) = enqueued events"

text \<open>
  The items a backend holds, oldest first: the stored rows, then the pending \<open>add\<close>
  requests, then the enqueue operations not yet dispatched.
\<close>

fun writes :: "IDBRequest list \<Rightarrow> item list" where
  "writes [] = []"
| "writes (Add payload # rs) = payload # writes rs"
| "writes (OpenCursor r # rs) = writes rs"

fun enqueues :: "DBOperation list \<Rightarrow> item list" where
  "enqueues [] = []"
| "enqueues (ENQUEUE payload # ops) = payload # enqueues ops"
| "enqueues (DEQUEUE r # ops) = enqueues ops"

fun held :: "backend \<Rightarrow> item list" where
  "held (IN_MEMORY m) = queued m"
| "held (PERSISTENT b) = map snd (rows b) @ writes (requests b) @ enqueues (dbOperationQueue b)"

text \<open>
  The dequeue promises a backend has not settled: those of the dequeue operations not
  yet dispatched, of the pending cursor requests, and the parked one.
\<close>

fun cursors :: "IDBRequest list \<Rightarrow> nat list" where
  "cursors [] = []"
| "cursors (Add payload # rs) = cursors rs"
| "cursors (OpenCursor r # rs) = r # cursors rs"

fun dequeues :: "DBOperation list \<Rightarrow> nat list" where
  "dequeues [] = []"
| "dequeues (ENQUEUE payload # ops) = dequeues ops"
| "dequeues (DEQUEUE r # ops) = r # dequeues ops"

fun parked :: "nat option \<Rightarrow> nat list" where
  "parked None = []"
| "parked (Some r) = [r]"

fun unsettled :: "backend \<Rightarrow> nat list" where
  "unsettled (IN_MEMORY m) = parked (waiting m)"
| "unsettled (PERSISTENT b) =
     dequeues (dbOperationQueue b) @ cursors (requests b) @ parked (nextItemPromise b)"

text \<open>
  A dequeue is on its way to the store from the call of \<open>dequeue()\<close> until its cursor
  request completes.
\<close>

fun reading :: "backend \<Rightarrow> bool" where
  "reading (IN_MEMORY m) = False"
| "reading (PERSISTENT b) = (dequeues (dbOperationQueue b) \<noteq> [] \<or> cursors (requests b) \<noteq> [])"

text \<open>
  \<open>undisturbed\<close>: along the events no store request fails and no item is enqueued while
  a dequeue is on its way to the store.
\<close>

fun undisturbed :: "DequeueLoopConfig \<Rightarrow> Queue \<Rightarrow> event list \<Rightarrow> bool" where
  "undisturbed cfg q [] = True"
| "undisturbed cfg q (e # events) =
     (e \<noteq> RequestError
      \<and> (case e of Enqueue item \<Rightarrow> \<not> reading (backend q) | other \<Rightarrow> True)
      \<and> undisturbed cfg (step cfg q e) events)"

definition nonNull :: "item list \<Rightarrow> item list" where
  "nonNull xs = filter (\<lambda>x. x \<noteq> Null) xs"


text \<open>
  Bookkeeping for the proofs. \<open>wellFormed\<close>: the shape a backend has between two tasks
  as long as the run is undisturbed. For the persistent backend: once the database is
  open the processing loop is suspended on an empty operation list, before that no
  request has reached the store; a parked dequeue means an empty store with no write pending;
  and in both lists the writes stand before the reads.
\<close>

fun wellFormed :: "backend \<Rightarrow> bool" where
  "wellFormed (IN_MEMORY m) = (waiting m \<noteq> None \<longrightarrow> queued m = [])"
| "wellFormed (PERSISTENT b) =
     ((db b \<longrightarrow> dbOperationQueue b = [] \<and> nextDBOperationPromise b)
      \<and> (\<not> db b \<longrightarrow> requests b = [] \<and> nextItemPromise b = None
                       \<and> \<not> nextDBOperationPromise b)
      \<and> (nextItemPromise b \<noteq> None \<longrightarrow> rows b = [] \<and> writes (requests b) = [])
      \<and> requests b = map Add (writes (requests b)) @ map OpenCursor (cursors (requests b))
      \<and> dbOperationQueue b
            = map ENQUEUE (enqueues (dbOperationQueue b)) @ map DEQUEUE (dequeues (dbOperationQueue b)))"

text \<open>The promise the loop is suspended on, as a list.\<close>

fun awaitedPromise :: "loop_status \<Rightarrow> nat list" where
  "awaitedPromise (Awaiting p) = [p]"
| "awaitedPromise other = []"

text \<open>
  \<open>fifoStep b added asked (b', out)\<close>: what one backend operation may do to a backend
  \<open>b\<close> that is given the items \<open>added\<close> and the dequeue promises \<open>asked\<close>. Either it
  settles nothing and holds and owes what it held and owed before plus what it was
  given; or it fulfils the one promise it owes with the oldest item it holds.
\<close>

definition fifoStep :: "backend \<Rightarrow> item list \<Rightarrow> nat list \<Rightarrow> backend \<times> settlement list \<Rightarrow> bool" where
  "fifoStep b added asked result =
     ((snd result = [] \<and> held (fst result) = held b @ added
         \<and> unsettled (fst result) = unsettled b @ asked)
      \<or> (\<exists>r x. snd result = [(r, Fulfilled x)] \<and> unsettled b @ asked = [r]
             \<and> unsettled (fst result) = [] \<and> held b @ added = x # held (fst result)))"

text \<open>
  \<open>consistent\<close>: the backend is well formed, it owes exactly the promise the loop is
  suspended on, and a loop that was never started stands at \<open>NotStarted\<close>.
\<close>

definition consistent :: "Queue \<Rightarrow> bool" where
  "consistent q =
     (wellFormed (backend q) \<and> unsettled (backend q) = awaitedPromise (status q)
      \<and> (\<not> run q \<longrightarrow> status q = NotStarted))"

text \<open>The items among the settlements, and the multiset of the non-null ones of a list.\<close>

fun fulfilled :: "settlement list \<Rightarrow> item list" where
  "fulfilled [] = []"
| "fulfilled ((r, Fulfilled item) # out) = item # fulfilled out"
| "fulfilled ((r, Failed) # out) = fulfilled out"


text \<open>With no dequeue parked, every operation becomes a store request, in order.\<close>

fun asRequest :: "DBOperation \<Rightarrow> IDBRequest" where
  "asRequest (ENQUEUE payload) = Add payload"
| "asRequest (DEQUEUE r) = OpenCursor r"

text \<open>\<open>lossStep\<close>: a backend operation hands out and keeps no more than it held and was given.\<close>

definition lossStep :: "backend \<Rightarrow> item list \<Rightarrow> backend \<times> settlement list \<Rightarrow> bool" where
  "lossStep b added res =
     (mset (fulfilled (snd res)) + mset (held (fst res)) \<subseteq># mset (held b) + mset added)"

text \<open>What a queue accounts for: the items handed to the handler and the non-null items held.\<close>

definition accounted :: "Queue \<Rightarrow> item multiset" where
  "accounted q = mset (delivered q) + mset (nonNull (held (backend q)))"

text \<open>
  The loop is \<open>looping\<close> when it stands before an iteration or waits for \<open>dequeue()\<close>:
  it was started, \<open>initialize\<close> returned true, \<open>shouldDequeue\<close> has not stopped it and no
  \<open>dequeue()\<close> has rejected.
\<close>

fun looping :: "loop_status \<Rightarrow> bool" where
  "looping Idle = True"
| "looping (Awaiting p) = True"
| "looping other = False"

text \<open>The backend can reach its store: always in memory, after \<open>initialize\<close> for the database.\<close>

fun opened :: "backend \<Rightarrow> bool" where
  "opened (IN_MEMORY m) = True"
| "opened (PERSISTENT b) = db b"

fun pendingRequests :: "backend \<Rightarrow> nat" where
  "pendingRequests (IN_MEMORY m) = 0"
| "pendingRequests (PERSISTENT b) = length (requests b)"

text \<open>
  \<open>remaining\<close>: a bound on the loop iterations and request completions needed to hand
  out every held item.
\<close>

definition remaining :: "Queue \<Rightarrow> nat" where
  "remaining q = 3 * length (held (backend q)) + pendingRequests (backend q)
                 + (if status q = Idle then 2 else 0)"

text \<open>
  \<open>dequeueParked\<close>: the loop waits for a \<open>dequeue()\<close> whose cursor found no row, so
  that its \<open>resolve\<close> is kept in \<open>nextItemPromise\<close>, and the database has nothing else to do.
\<close>

definition dequeueParked :: "Queue \<Rightarrow> bool" where
  "dequeueParked q =
     (run q \<and> (case backend q of
                 IN_MEMORY m \<Rightarrow> False
               | PERSISTENT b \<Rightarrow>
                   db b \<and> dbOperationQueue b = [] \<and> requests b = []
                   \<and> (case nextItemPromise b of
                          None \<Rightarrow> False
                        | Some p \<Rightarrow> status q = Awaiting p)))"


section \<open>Disabler (disabler.ts)\<close>

text \<open>
  Module state \<open>action\<close>, \<open>expiration\<close> (\<open>number | null\<close>), the \<open>storage\<close>
  object (its callbacks run synchronously), the clock read by \<open>Date.now()\<close>, and a
  probe counting the calls of \<open>storage.set\<close>.
\<close>

definition TRANSMIT :: string where "TRANSMIT = ''TRANSMIT''"
definition MAINTAIN :: string where "MAINTAIN = ''MAINTAIN''"
definition DROP :: string where "DROP = ''DROP''"

definition PERMANENT :: int where "PERMANENT = - 1"

definition DISABLER_STORE :: string where "DISABLER_STORE = ''disablerState''"

record Disabler =
  action :: string
  expiration :: "int option"
  storage :: StorageBackend
  clock :: int
  setCalls :: nat

text \<open>The object literal \<open>{ action, expiration }\<close>.\<close>

definition expirationValue :: "int option \<Rightarrow> jsval" where
  "expirationValue e = (case e of None \<Rightarrow> Null | Some n \<Rightarrow> Num n)"

definition stateRecord :: "string \<Rightarrow> int option \<Rightarrow> jsval" where
  "stateRecord a e = Obj Plain [(''action'', Str a), (''expiration'', expirationValue e)]"

text \<open>\<open>storage.set({ [DISABLER_STORE]: { action, expiration } })\<close>\<close>

definition persist :: "Disabler \<Rightarrow> Disabler" where
  "persist w =
     w\<lparr>storage := storage_set (storage w)
                     [(DISABLER_STORE, stateRecord (action w) (expiration w))],
       setCalls := setCalls w + 1\<rparr>"

text \<open>
  \<^verbatim>\<open>export function handleBlockError (error) {
    action = error.action;
    if (error.timeLimit === TIME_LIMIT.PERMANENT) { expiration = TIME_LIMIT.PERMANENT; }
    else { expiration = Date.now() + error.timeLimit; }
    storage.set({ [DISABLER_STORE]: { action, expiration } }); }
  export function storeEvents () { return action !== EVENT_ACTION.DROP; }\<close>
\<close>

record BlockError =
  timeLimit :: int
  blockAction :: string

definition handleBlockError :: "BlockError \<Rightarrow> Disabler \<Rightarrow> Disabler" where
  "handleBlockError error w =
     persist (w\<lparr>action := blockAction error,
               expiration := (if timeLimit error = PERMANENT then Some PERMANENT
                              else Some (clock w + timeLimit error))\<rparr>)"

definition storeEvents :: "Disabler \<Rightarrow> bool" where
  "storeEvents w = (action w \<noteq> DROP)"

text \<open>
  \<^verbatim>\<open>export async function retry () {
    if (expiration === TIME_LIMIT.PERMANENT) { return false; }
    const now = Date.now();
    if (now < expiration) { await util.delay(expiration - now); }
    action = DEFAULTS.action;
    expiration = DEFAULTS.expiration;
    storage.get([DISABLER_STORE], (result) => {
      const currentValue = result[DISABLER_STORE];
      if (!currentValue || currentValue.action !== action
          || currentValue.expiration !== expiration) {
        storage.set({ [DISABLER_STORE]: { action, expiration } }); } });
    return true; }\<close>
  In \<open>now < expiration\<close> a \<open>null\<close> expiration counts as 0. The delay ends when the
  clock has reached \<open>expiration\<close>; nothing after it reads the clock.
\<close>

definition toNumber :: "int option \<Rightarrow> int" where
  "toNumber e = (case e of None \<Rightarrow> 0 | Some n \<Rightarrow> n)"

definition retry :: "Disabler \<Rightarrow> bool \<times> Disabler" where
  "retry w =
     (if expiration w = Some PERMANENT then (False, w)
      else
        let now = clock w;
            w1 = (if now < toNumber (expiration w)
                  then w\<lparr>clock := now + (toNumber (expiration w) - now)\<rparr> else w);
            w2 = w1\<lparr>action := TRANSMIT, expiration := None\<rparr>;
            result = storage_get (storage w2) (Keys [DISABLER_STORE]);
            currentValue = get_prop result DISABLER_STORE
        in (True,
            if \<not> truthy currentValue
               \<or> get_prop (props_of currentValue) ''action'' \<noteq> Str (action w2)
               \<or> get_prop (props_of currentValue) ''expiration'' \<noteq> expirationValue (expiration w2)
            then persist w2 else w2))"


section \<open>Transport: reconnect delay (websocketLogger.ts)\<close>

text \<open>
  \<^verbatim>\<open>function calculateExponentialBackoff (n) {
    return Math.min(1000 * Math.pow(2, n), 1000 * 60 * 15); }\<close>

  The failure counter \<open>failures\<close> starts at 0 and is only ever incremented or reset to 0,
  so \<open>n\<close> is a natural number. For such \<open>n\<close> the product \<open>1000 * 2^n\<close> is computed
  without rounding by the source's number type as long as it is finite, and once it
  overflows to infinity \<open>Math.min\<close> returns the cap, as the formula over the integers does.
\<close>

definition calculateExponentialBackoff :: "nat \<Rightarrow> int" where
  "calculateExponentialBackoff n = min (1000 * 2 ^ n) (1000 * 60 * 15)"


section \<open>Orchestrator (loEvent.ts)\<close>

text \<open>
  The module state of loEvent.ts. \<open>currentState\<close> is the promise every public call
  extends with \<open>currentState = currentState.then(step)\<close>; no call attaches a rejection
  handler, so once a step rejects the promise stays rejected and no later step runs.
  A logger is given by what its optional hooks do when called: return (a value or a
  promise that is fulfilled), return a promise that is rejected, or throw.

  The steps of a call run after its synchronous part, in the order they were appended;
  the model runs them right away, which gives the same states for the calls
  \<open>init\<close>, \<open>lockFields\<close> and \<open>go\<close> made in this order, since no synchronous part of
  the later calls writes what a step reads. Of the options of \<open>init\<close> the debug routing,
  \<open>verboseEvents\<close> and \<open>sendBrowserInfo\<close> are left at their defaults.
\<close>

datatype INIT_STATES = NOT_STARTED | IN_PROGRESS | LOGGERS_READY | READY | ERROR

datatype hook = Fulfils | Rejects | ThrowsSync

datatype chain = Pending_ok | Pending_rejected

record Logger =
  init_hook :: "hook option"
  setField_hook :: "hook option"

record LoEvent =
  initialized :: INIT_STATES
  currentState :: chain
  loggersEnabled :: "Logger list"
  queue :: "Queue option"
  pendingSource :: string
  pendingVersion :: string
  pendingMetadata :: "(string \<times> supplied) list"
  errorLog :: "string list"
  fieldsSent :: "props list"

definition moduleLoaded :: LoEvent where
  "moduleLoaded = \<lparr>initialized = NOT_STARTED, currentState = Pending_ok, loggersEnabled = [],
                    queue = None, pendingSource = [], pendingVersion = [],
                    pendingMetadata = [], errorLog = [], fieldsSent = []\<rparr>"

definition thenStep :: "(LoEvent \<Rightarrow> LoEvent) \<Rightarrow> LoEvent \<Rightarrow> LoEvent" where
  "thenStep f st = (if currentState st = Pending_ok then f st else st)"

text \<open>The results of calling the hook of every logger that has one, in logger order.\<close>

fun hooksOf :: "(Logger \<Rightarrow> hook option) \<Rightarrow> Logger list \<Rightarrow> hook list" where
  "hooksOf h [] = []"
| "hooksOf h (logger # loggers) =
     (case h logger of None \<Rightarrow> hooksOf h loggers | Some r \<Rightarrow> r # hooksOf h loggers)"

text \<open>
  \<^verbatim>\<open>async function initializeLoggers () {
    const initializedLoggers = loggersEnabled
      .filter(logger => typeof logger.init === 'function')
      .map(logger => logger.init());
    try { await Promise.all(initializedLoggers);
          initialized = INIT_STATES.LOGGERS_READY; }
    catch (error) { initialized = INIT_STATES.ERROR;
                    debug.error('Error resolving logger initializers:', error); } }\<close>
  The hooks are called before the \<open>try\<close> block: a hook that throws makes the step
  itself reject.
\<close>

definition initializeLoggers :: "LoEvent \<Rightarrow> LoEvent" where
  "initializeLoggers st =
     (let initializedLoggers = hooksOf init_hook (loggersEnabled st)
      in if ThrowsSync \<in> set initializedLoggers then st\<lparr>currentState := Pending_rejected\<rparr>
         else if Rejects \<in> set initializedLoggers
         then st\<lparr>initialized := ERROR,
                 errorLog := errorLog st @ [''Error resolving logger initializers:'']\<rparr>
         else st\<lparr>initialized := LOGGERS_READY\<rparr>)"

text \<open>
  \<^verbatim>\<open>async function lockFieldsAsync (data) {
    const payload = { fields: await mergeMetadata(data), event: 'lock_fields' };
    timestampEvent(payload);
    const authpromises = loggersEnabled
      .filter(logger => typeof logger.setField === 'function')
      .map(logger => logger.setField(JSON.stringify(payload)));
    await Promise.all(authpromises); }\<close>
  \<open>fieldsSent\<close> records the \<open>fields\<close> of every payload whose broadcast was begun.
\<close>

definition lockFieldsAsync :: "MetadataInput list \<Rightarrow> LoEvent \<Rightarrow> LoEvent" where
  "lockFieldsAsync data st =
     (case mergeMetadata data of
        Inl e \<Rightarrow> st\<lparr>currentState := Pending_rejected\<rparr>
      | Inr merged \<Rightarrow>
          (let st1 = st\<lparr>fieldsSent := fieldsSent st @ [merged]\<rparr>
           in if list_all (\<lambda>r. r = Fulfils) (hooksOf setField_hook (loggersEnabled st1))
              then st1 else st1\<lparr>currentState := Pending_rejected\<rparr>))"

definition lockFields :: "MetadataInput list \<Rightarrow> LoEvent \<Rightarrow> LoEvent" where
  "lockFields data st = thenStep (lockFieldsAsync data) st"

text \<open>
  \<^verbatim>\<open>export async function compileMetadata(metadataTasks) {
    const taskPromises = metadataTasks.map(async task => {
      try { const result = await Promise.resolve(task.func());
            return { [task.name]: result }; }
      catch (error) { debug.error(`Error in initialization task ${task.name}:`, error);
                      return null; } });
    const results = await Promise.all(taskPromises);
    return results.filter(r => r !== null); }\<close>
  The result: the fragments of the tasks that succeeded, and the messages given to
  \<open>debug.error\<close> for those that failed, both in task order.
\<close>

fun compileMetadata :: "(string \<times> supplied) list \<Rightarrow> MetadataInput list \<times> string list" where
  "compileMetadata [] = ([], [])"
| "compileMetadata ((name, Yields result) # tasks) =
     (let (results, errors) = compileMetadata tasks
      in (Dict (Obj Plain [(name, result)]) # results, errors))"
| "compileMetadata ((name, Throws) # tasks) =
     (let (results, errors) = compileMetadata tasks
      in (results, (''Error in initialization task '' @ name @ '':'') # errors))"

text \<open>
  \<open>disabler.init\<close> as a step: it rejects when \<open>storage\<close> or \<open>storage.get\<close> is undefined and
  is fulfilled from the callback of \<open>storage.get\<close> otherwise.
\<close>

definition disablerInitStep :: "bool \<Rightarrow> LoEvent \<Rightarrow> LoEvent" where
  "disablerInitStep storage_defined st =
     (if storage_defined then st
      else st\<lparr>currentState := Pending_rejected,
              errorLog := errorLog st
                @ [''Storage is not set or storage.get is undefined. This should never happen.'']\<rparr>)"

text \<open>
  \<^verbatim>\<open>export function init (source, version, loggers, { useDisabler = true, queueType = ..., metadata = [] , ...} = {}) {
    if (!source || typeof source !== 'string') throw new Error('source must be a non-null string');
    if (!version || typeof version !== 'string') throw new Error('version must be a non-null string');
    queue = new Queue.Queue('LOEvent', { queueType });
    if (useDisabler) { currentState = currentState.then(() => disabler.init(useDisabler)); }
    loggersEnabled = loggers;
    initialized = INIT_STATES.IN_PROGRESS;
    pendingSource = source; pendingVersion = version; pendingMetadata = metadata;
    currentState = currentState.then(initializeLoggers); ... }\<close>
\<close>

datatype initError = SourceMustBeNonNullString | VersionMustBeNonNullString | QueueError queueError

record InitOptions =
  useDisabler :: bool
  queueType :: QueueType
  metadataTasks :: "(string \<times> supplied) list"

record Environment =
  indexedDB_defined :: bool
  objectStore :: ObjectStore
  storage_defined :: bool

definition init ::
  "Environment \<Rightarrow> string \<Rightarrow> string \<Rightarrow> Logger list \<Rightarrow> InitOptions \<Rightarrow> LoEvent \<Rightarrow> initError + LoEvent" where
  "init env source version loggers options st =
     (if source = [] then Inl SourceMustBeNonNullString
      else if version = [] then Inl VersionMustBeNonNullString
      else case newQueue (indexedDB_defined env) (objectStore env) (queueType options) of
             Inl e \<Rightarrow> Inl (QueueError e)
           | Inr q \<Rightarrow>
               (let st1 = st\<lparr>queue := Some q, loggersEnabled := loggers,
                             initialized := IN_PROGRESS, pendingSource := source,
                             pendingVersion := version, pendingMetadata := metadataTasks options\<rparr>;
                    st2 = (if useDisabler options
                           then thenStep (disablerInitStep (storage_defined env)) st1 else st1)
                in Inr (thenStep initializeLoggers st2)))"

text \<open>
  \<^verbatim>\<open>export function go () {
    lockFields([{ source: pendingSource, version: pendingVersion }]);
    currentState = currentState.then(async () => {
      const results = await compileMetadata(pendingMetadata);
      await lockFieldsAsync(results); });
    currentState = currentState.then(() => {
      if (initialized === INIT_STATES.ERROR) {
        debug.error('Cannot start dequeue loop: logger initialization failed');
        return; }
      initialized = INIT_STATES.READY;
      queue.startDequeueLoop({ initialize: isInitialized,
                               shouldDequeue: disabler.retry, onDequeue: sendEvent }); }); }\<close>
  \<open>isInitialized\<close> is \<open>initialized === READY\<close>, read when the loop starts.
  \<open>disabler.retry\<close> and \<open>sendEvent\<close> are the parameters \<open>retrying\<close> and \<open>sending\<close>. A throw
  in the last step (\<open>queue\<close> undefined, or the error of \<open>once\<close>) rejects the promise.
\<close>

definition startStep :: "(nat \<Rightarrow> bool awaited) \<Rightarrow> (nat \<Rightarrow> item \<Rightarrow> unit awaited) \<Rightarrow> LoEvent \<Rightarrow> LoEvent" where
  "startStep retrying sending st =
     (if initialized st = ERROR
      then st\<lparr>errorLog := errorLog st @ [''Cannot start dequeue loop: logger initialization failed'']\<rparr>
      else
        let st1 = st\<lparr>initialized := READY\<rparr>
        in case queue st1 of
             None \<Rightarrow> st1\<lparr>currentState := Pending_rejected\<rparr>
           | Some q \<Rightarrow>
               (case Queue_startDequeueLoop
                       \<lparr>initialize = Returns (initialized st1 = READY),
                        shouldDequeue = retrying, onDequeue = sending\<rparr> q of
                  Inl e \<Rightarrow> st1\<lparr>currentState := Pending_rejected\<rparr>
                | Inr q1 \<Rightarrow> st1\<lparr>queue := Some q1\<rparr>))"

definition go :: "(nat \<Rightarrow> bool awaited) \<Rightarrow> (nat \<Rightarrow> item \<Rightarrow> unit awaited) \<Rightarrow> LoEvent \<Rightarrow> LoEvent" where
  "go retrying sending st =
     (let st1 = lockFields [Dict (Obj Plain [(''source'', Str (pendingSource st)),
                                             (''version'', Str (pendingVersion st))])] st;
          st2 = thenStep (\<lambda>s. let (results, errors) = compileMetadata (pendingMetadata s)
                              in lockFieldsAsync results (s\<lparr>errorLog := errorLog s @ errors\<rparr>)) st1;
          st3 = thenStep (startStep retrying sending) st2
      in st3)"

text \<open>Whether the main queue's dequeue loop was started.\<close>

definition loopStarted :: "LoEvent \<Rightarrow> bool" where
  "loopStarted st = (case queue st of None \<Rightarrow> False | Some q \<Rightarrow> run q)"


section \<open>Reference values used in the statements\<close>

text \<open>
  The record \<open>retry\<close> writes, the value \<open>retry\<close> reads back as \<open>currentValue\<close>, and
  the test it applies to that value. \<open>keepsValues\<close> holds of a storage object that
  returns values as they were stored.
\<close>

definition resetRecord :: jsval where
  "resetRecord = stateRecord TRANSMIT None"

definition storedRecord :: "StorageBackend \<Rightarrow> jsval" where
  "storedRecord s = get_prop (storage_get s (Keys [DISABLER_STORE])) DISABLER_STORE"

definition matchesReset :: "jsval \<Rightarrow> bool" where
  "matchesReset currentValue =
     (truthy currentValue
      \<and> get_prop (props_of currentValue) ''action'' = Str TRANSMIT
      \<and> get_prop (props_of currentValue) ''expiration'' = Null)"

fun keepsValues :: "StorageBackend \<Rightarrow> bool" where
  "keepsValues (ThunkStorage data) = True"
| "keepsValues (LocalStorage store) = False"

text \<open>Concrete inputs on which the theorems are exercised.\<close>

definition sampleHost :: Host where
  "sampleHost = \<lparr>isoNow = ''2024-01-01T00:00:00.000Z'', msNow = 1704067200000,
                  humanNow = ''Mon Jan 01 2024'', newStamp = ''stamp-1''\<rparr>"

definition sampleUtil :: UtilState where
  "sampleUtil = \<lparr>verboseEvents = True, eventIndex = 4, sessionStamp = ''session-1'',
                  cachedBrowserStamp = Null, storageData = ThunkStorage []\<rparr>"

definition plainConfig :: DequeueLoopConfig where
  "plainConfig = \<lparr>initialize = Returns True, shouldDequeue = (\<lambda>n. Returns True),
                   onDequeue = (\<lambda>n item. Returns ())\<rparr>"

definition failingConfig :: DequeueLoopConfig where
  "failingConfig = \<lparr>initialize = Returns True, shouldDequeue = (\<lambda>n. Returns True),
                     onDequeue = (\<lambda>n item. if item = Str ''a'' then Raises else Returns ())\<rparr>"

definition emptyStore :: ObjectStore where
  "emptyStore = \<lparr>storedRows = [], keyGenerator = 1\<rparr>"

definition persistentQueue :: Queue where
  "persistentQueue = queueOver (PERSISTENT (newIdbQueue emptyStore))"

definition enqueueLate :: "event list" where
  "enqueueLate = [DbOpen, Start, Poll, RequestDone, Enqueue (Str ''a''), Enqueue (Str ''b''),
                  Poll, RequestDone, RequestDone, Poll, RequestDone]"

definition enqueueEarly :: "event list" where
  "enqueueEarly = [Enqueue (Str ''a''), DbOpen, Start, Enqueue (Str ''b''), RequestDone]"

definition enqueueNull :: "event list" where
  "enqueueNull = [DbOpen, Enqueue Null, Enqueue (Num 1), RequestDone, RequestDone, Start,
                  Poll, RequestDone, Poll, RequestDone, Poll, RequestDone]"

definition enqueueStranded :: "event list" where
  "enqueueStranded = [DbOpen, Start, Poll, Enqueue (Str ''a''), RequestDone, RequestDone]"

definition enqueueOvertaken :: "event list" where
  "enqueueOvertaken = enqueueStranded @ [Enqueue (Str ''b''), Poll, RequestDone]"

definition leftoverStore :: ObjectStore where
  "leftoverStore = \<lparr>storedRows = [(1, Str ''old'')], keyGenerator = 2\<rparr>"

definition emptyStoreRead :: IdbQueue where
  "emptyStoreRead = \<lparr>db = True, dbOperationQueue = [], nextDBOperationPromise = True,
                      nextItemPromise = None, rows = [], nextKey = 1,
                      requests = [OpenCursor 0], addCalls = 0\<rparr>"

definition acceptingSink :: Logger where
  "acceptingSink = \<lparr>init_hook = Some Fulfils, setField_hook = Some Fulfils\<rparr>"

definition plainSink :: Logger where
  "plainSink = \<lparr>init_hook = None, setField_hook = None\<rparr>"

definition unreachableSink :: Logger where
  "unreachableSink = \<lparr>init_hook = Some Rejects, setField_hook = Some Fulfils\<rparr>"

definition deafSink :: Logger where
  "deafSink = \<lparr>init_hook = Some Fulfils, setField_hook = Some Rejects\<rparr>"

definition brokenSink :: Logger where
  "brokenSink = \<lparr>init_hook = Some ThrowsSync, setField_hook = None\<rparr>"

definition browserPage :: Environment where
  "browserPage = \<lparr>indexedDB_defined = True, objectStore = emptyStore, storage_defined = True\<rparr>"

definition defaults :: InitOptions where
  "defaults = \<lparr>useDisabler = True, queueType = AUTODETECT, metadataTasks = []\<rparr>"

definition always :: "nat \<Rightarrow> bool awaited" where
  "always n = Returns True"

definition accepting :: "nat \<Rightarrow> item \<Rightarrow> unit awaited" where
  "accepting n item = Returns ()"

text \<open>The module after \<open>init('S', 'V', loggers)\<close> with default options in a browser page.\<close>

definition afterInit :: "Logger list \<Rightarrow> LoEvent" where
  "afterInit loggers =
     (case init browserPage ''S'' ''V'' loggers defaults moduleLoaded of
        Inl e \<Rightarrow> moduleLoaded
      | Inr st \<Rightarrow> st)"

text \<open>The same with options whose one metadata task fails.\<close>

definition failingTask :: InitOptions where
  "failingTask = \<lparr>useDisabler = True, queueType = AUTODETECT,
                   metadataTasks = [(''bad'', Throws)]\<rparr>"

definition afterInitWith :: "InitOptions \<Rightarrow> Logger list \<Rightarrow> LoEvent" where
  "afterInitWith options loggers =
     (case init browserPage ''S'' ''V'' loggers options moduleLoaded of
        Inl e \<Rightarrow> moduleLoaded
      | Inr st \<Rightarrow> st)"

definition pageDisabler :: Disabler where
  "pageDisabler = \<lparr>action = TRANSMIT, expiration = None, storage = LocalStorage [],
                   clock = 1000, setCalls = 0\<rparr>"

definition blockedFor :: Disabler where
  "blockedFor =
     handleBlockError \<lparr>timeLimit = 300000, blockAction = MAINTAIN\<rparr>
       \<lparr>action = TRANSMIT, expiration = None, storage = ThunkStorage [], clock = 1000, setCalls = 0\<rparr>"

definition blockedForever :: Disabler where
  "blockedForever =
     handleBlockError \<lparr>timeLimit = PERMANENT, blockAction = DROP\<rparr>
       \<lparr>action = TRANSMIT, expiration = None, storage = ThunkStorage [], clock = 1000, setCalls = 0\<rparr>"


section \<open>Reading and writing properties\<close>

lemma map_of_set_prop: "map_of (set_prop ps key v) = (map_of ps)(key \<mapsto> v)"
  by (induction ps) auto

lemma get_prop_set_prop:
  "get_prop (set_prop ps key v) key' = (if key' = key then v else get_prop ps key')"
  by (simp add: get_prop_def map_of_set_prop)

lemma hasOwnProperty_set_prop:
  "hasOwnProperty (set_prop ps key v) key' = (key' = key \<or> hasOwnProperty ps key')"
  by (simp add: hasOwnProperty_def map_of_set_prop)

lemma falsy_has_no_props: "\<not> truthy v \<Longrightarrow> props_of v = []"
  by (cases v) simp_all

section \<open>Storage: what \<open>get(null)\<close> returns\<close>

lemma spread_Nil_aux: "distinct (map fst (acc @ data)) \<Longrightarrow> foldl (\<lambda>r (key, v). set_prop r key v) acc data = acc @ data"
proof (induction data arbitrary: acc)
  case Nil
  then show ?case by simp
next
  case (Cons p data)
  obtain k v where p: "p = (k, v)" by (cases p)
  from Cons.prems p have "k \<notin> fst ` set acc" by auto
  then have "set_prop acc k v = acc @ [(k, v)]"
    by (induction acc) auto
  with Cons.IH [of "acc @ [p]"] Cons.prems p show ?case by simp
qed

lemma thunkStorage_get_null: "distinct (map fst data) \<Longrightarrow> thunkStorage_get data NullKeys = data"
  using spread_Nil_aux [of "[]" data] by (simp add: spread_def)

lemma getWithCallback_null: "getWithCallback getItem NullKeys = []"
  by (simp add: getWithCallback_def)

text \<open>
  Claim C9. For every storage backend, \<open>get(null, callback)\<close> hands the callback every
  stored pair. \<open>thunkStorage\<close> does (lemma \<open>thunkStorage_get_null\<close>); the
  \<open>localStorage\<close> wrapper built by \<open>getWithCallback\<close> iterates over \<open>items ?? []\<close> and
  hands the callback the empty map whatever is stored (lemma \<open>getWithCallback_null\<close>).
  The theorem evaluates the wrapper on two stored pairs, which it returns when asked
  for by name and not when asked with \<open>null\<close>, and \<open>thunkStorage\<close> on the same pairs.
\<close>

theorem C9_localStorage_get_null_is_empty:
  "storage_get (LocalStorage [(''user_id'', ''u1''), (''lo_server'', ''wss://x'')]) NullKeys = []
   \<and> storage_get (LocalStorage [(''user_id'', ''u1''), (''lo_server'', ''wss://x'')])
         (Keys [''user_id'', ''lo_server''])
       = [(''user_id'', Str ''u1''), (''lo_server'', Str ''wss://x'')]
   \<and> storage_get (ThunkStorage [(''user_id'', Str ''u1''), (''lo_server'', Str ''wss://x'')]) NullKeys
       = [(''user_id'', Str ''u1''), (''lo_server'', Str ''wss://x'')]"
  by (simp add: getWithCallback_def localStorage_getItem_def spread_def)

section \<open>timestampEvent: what it leaves alone\<close>

lemma stampVerbose_frame:
  assumes "stampVerbose h u metadata = (m, u')"
   and "key \<notin> {''ts'', ''human_ts'', ''sessionIndex'', ''sessionTag'', ''browserTag''}"
  shows "map_of m key = map_of metadata key"
  using assms
  by (auto simp add: stampVerbose_def Let_def map_of_set_prop split: prod.splits)

text \<open>
  Claim C10. \<open>timestampEvent\<close> changes only the \<open>metadata\<close> field of its event: every
  other top-level field reads as before, and inside \<open>metadata\<close> every key other than the
  stamped ones (\<open>iso_ts\<close>, and in verbose mode \<open>ts\<close>, \<open>human_ts\<close>, \<open>sessionIndex\<close>,
  \<open>sessionTag\<close>, \<open>browserTag\<close>) reads as before. This holds for every outcome of the
  call, the TypeError on a primitive \<open>metadata\<close> included.
\<close>

theorem C10_timestampEvent_touches_only_metadata_stamps:
  assumes "timestampEvent h u event = (outcome, event', u')"
  shows "(\<forall>key. key \<noteq> ''metadata'' \<longrightarrow> map_of event' key = map_of event key)
       \<and> (\<forall>key. key \<notin> stampedKeys u \<longrightarrow>
             map_of (props_of (get_prop event' ''metadata'')) key
               = map_of (props_of (get_prop event ''metadata'')) key)"
  using assms
  by (auto simp: timestampEvent_def Let_def map_of_set_prop get_prop_set_prop stampedKeys_def stampVerbose_frame falsy_has_no_props split: jsval.splits prod.splits if_splits)

theorem C10_timestampEvent_witness:
  "map_of (fst (snd (timestampEvent sampleHost sampleUtil
          [(''event'', Str ''ADD''), (''metadata'', Obj Plain [(''ts'', Num 1), (''keep'', Num 2)])]))) ''event''
     = Some (Str ''ADD'')
   \<and> map_of (props_of (get_prop (fst (snd (timestampEvent sampleHost sampleUtil
          [(''event'', Str ''ADD''), (''metadata'', Obj Plain [(''ts'', Num 1), (''keep'', Num 2)])]))) ''metadata'')) ''keep''
     = Some (Num 2)
   \<and> ''event'' \<noteq> ''metadata'' \<and> ''keep'' \<notin> stampedKeys sampleUtil"
  using C10_timestampEvent_touches_only_metadata_stamps
     [of sampleHost sampleUtil "[(''event'', Str ''ADD''), (''metadata'', Obj Plain [(''ts'', Num 1), (''keep'', Num 2)])]"
         "fst (timestampEvent sampleHost sampleUtil
          [(''event'', Str ''ADD''), (''metadata'', Obj Plain [(''ts'', Num 1), (''keep'', Num 2)])])"
         "fst (snd (timestampEvent sampleHost sampleUtil
          [(''event'', Str ''ADD''), (''metadata'', Obj Plain [(''ts'', Num 1), (''keep'', Num 2)])]))"
         "snd (snd (timestampEvent sampleHost sampleUtil
          [(''event'', Str ''ADD''), (''metadata'', Obj Plain [(''ts'', Num 1), (''keep'', Num 2)])]))"]
  by (simp add: stampedKeys_def sampleUtil_def get_prop_def)

section \<open>mergeDictionary: the value left under each key\<close>

lemma mergeDictionary_Cons:
  "mergeDictionary target ((key, v) # source) =
     mergeDictionary (set_prop target key (mergedValue target key v)) source"
  by (simp add: mergedValue_def)

lemma mergeDictionary_other:
  "key \<notin> fst ` set source \<Longrightarrow> map_of (mergeDictionary target source) key = map_of target key"
proof (induction source arbitrary: target)
  case Nil
  then show ?case by simp
next
  case (Cons p source)
  obtain k v where p: "p = (k, v)" by (cases p)
  from Cons.prems p have "key \<noteq> k" and "key \<notin> fst ` set source" by auto
  then show ?case
    unfolding p mergeDictionary_Cons
    by (simp add: Cons.IH map_of_set_prop)
qed

lemma mergedValue_set_prop_other:
  "k \<noteq> key \<Longrightarrow> mergedValue (set_prop target k w) key v = mergedValue target key v"
  by (simp add: mergedValue_def hasOwnProperty_set_prop get_prop_set_prop)

lemma mergeDictionary_lookup:
  "distinct (map fst source) \<Longrightarrow> map_of source key = Some v \<Longrightarrow>
   map_of (mergeDictionary target source) key = Some (mergedValue target key v)"
proof (induction source arbitrary: target)
  case Nil
  then show ?case by simp
next
  case (Cons p source)
  obtain k w where p: "p = (k, w)" by (cases p)
  show ?case
  proof (cases "k = key")
    case True
    with Cons.prems p have "w = v" and "key \<notin> fst ` set source" by auto
    then show ?thesis
      unfolding p mergeDictionary_Cons using True
      by (simp add: mergeDictionary_other map_of_set_prop)
  next
    case False
    with Cons.prems p have d: "distinct (map fst source)" and m: "map_of source key = Some v"
      by auto
    show ?thesis
      unfolding p mergeDictionary_Cons
      using Cons.IH [OF d m] False by (simp add: mergedValue_set_prop_other)
  qed
qed

lemma mergeMetadataFrom_append:
  "mergeMetadataFrom m (xs @ ys) =
     (case mergeMetadataFrom m xs of Inl e \<Rightarrow> Inl e | Inr m' \<Rightarrow> mergeMetadataFrom m' ys)"
  by (induction m xs rule: mergeMetadataFrom.induct) simp_all

text \<open>
  Claim C5, as the code has it. \<open>lockFields\<close> merges its fragments left to right (each
  fragment is merged into the result of the earlier ones). For every key of a fragment:
  when the existing and the incoming value are both non-null objects, arrays included,
  the existing object is kept and the incoming one is merged into it recursively,
  property by property (for arrays: index by index); in every other case the incoming
  value replaces the existing one. A key the fragment does not have keeps its value.
\<close>

theorem C5_merge_is_recursive_on_all_objects:
  "(distinct (map fst source) \<longrightarrow>
      map_of (mergeDictionary target source) key =
        (case map_of source key of
           None \<Rightarrow> map_of target key
         | Some v \<Rightarrow>
             Some (if typeof (get_prop target key) = ''object'' \<and> get_prop target key \<noteq> Null
                      \<and> typeof v = ''object'' \<and> v \<noteq> Null
                   then with_props (get_prop target key)
                          (mergeDictionary (props_of (get_prop target key)) (props_of v))
                   else v)))
   \<and> mergeMetadataFrom masterDict (earlier @ [Dict (Obj kind source)]) =
        (case mergeMetadataFrom masterDict earlier of
           Inl e \<Rightarrow> Inl e
         | Inr merged \<Rightarrow> Inr (mergeDictionary merged source))"
proof (intro conjI impI)
  assume d: "distinct (map fst source)"
  show "map_of (mergeDictionary target source) key =
        (case map_of source key of
           None \<Rightarrow> map_of target key
         | Some v \<Rightarrow>
             Some (if typeof (get_prop target key) = ''object'' \<and> get_prop target key \<noteq> Null
                      \<and> typeof v = ''object'' \<and> v \<noteq> Null
                   then with_props (get_prop target key)
                          (mergeDictionary (props_of (get_prop target key)) (props_of v))
                   else v))"
  proof (cases "map_of source key")
    case None
    then have "key \<notin> fst ` set source"
      by (simp add: map_of_eq_None_iff)
    with None show ?thesis
      by (simp add: mergeDictionary_other)
  next
    case (Some v)
    have own: "get_prop target key \<noteq> Null \<and> typeof (get_prop target key) = ''object''
               \<Longrightarrow> hasOwnProperty target key"
      by (auto simp add: get_prop_def hasOwnProperty_def split: option.splits)
    from mergeDictionary_lookup [OF d Some] Some own show ?thesis
      by (auto simp add: mergedValue_def)
  qed
next
  show "mergeMetadataFrom masterDict (earlier @ [Dict (Obj kind source)]) =
        (case mergeMetadataFrom masterDict earlier of
           Inl e \<Rightarrow> Inl e
         | Inr merged \<Rightarrow> Inr (mergeDictionary merged source))"
    by (simp add: mergeMetadataFrom_append mergeItem_def split: sum.splits)
qed

theorem C5_merge_witness:
  "map_of (mergeDictionary
             [(''a'', Num 1), (''b'', Obj Plain [(''c'', Num 3)]), (''l'', Obj Array [(''0'', Num 7)])]
             [(''b'', Obj Plain [(''d'', Num 4)]), (''l'', Str ''x''), (''e'', Obj Array [(''0'', Num 5)])]) ''b''
     = Some (Obj Plain [(''c'', Num 3), (''d'', Num 4)])
   \<and> map_of (mergeDictionary
             [(''a'', Num 1), (''b'', Obj Plain [(''c'', Num 3)]), (''l'', Obj Array [(''0'', Num 7)])]
             [(''b'', Obj Plain [(''d'', Num 4)]), (''l'', Str ''x''), (''e'', Obj Array [(''0'', Num 5)])]) ''l''
     = Some (Str ''x'')"
  using C5_merge_is_recursive_on_all_objects
          [of "[(''b'', Obj Plain [(''d'', Num 4)]), (''l'', Str ''x''), (''e'', Obj Array [(''0'', Num 5)])]"
              "[(''a'', Num 1), (''b'', Obj Plain [(''c'', Num 3)]), (''l'', Obj Array [(''0'', Num 7)])]"
              "''b''"]
        C5_merge_is_recursive_on_all_objects
          [of "[(''b'', Obj Plain [(''d'', Num 4)]), (''l'', Str ''x''), (''e'', Obj Array [(''0'', Num 5)])]"
              "[(''a'', Num 1), (''b'', Obj Plain [(''c'', Num 3)]), (''l'', Obj Array [(''0'', Num 7)])]"
              "''l''"]
  by (simp add: get_prop_def hasOwnProperty_def)

text \<open>
  Claim C5, as stated: an incoming array replaces the existing value wholesale. It does
  not when the existing value is an array (or any object): merging \<open>{a: [9]}\<close> into
  \<open>{a: [1, 2, 3]}\<close> yields \<open>{a: [9, 2, 3]}\<close>, not \<open>{a: [9]}\<close>.
\<close>

theorem C5_arrays_are_merged_by_index:
  "mergeMetadata
     [Dict (Obj Plain [(''a'', Obj Array [(''0'', Num 1), (''1'', Num 2), (''2'', Num 3)])]),
      Dict (Obj Plain [(''a'', Obj Array [(''0'', Num 9)])])]
     = Inr [(''a'', Obj Array [(''0'', Num 9), (''1'', Num 2), (''2'', Num 3)])]
   \<and> mergeMetadata
     [Dict (Obj Plain [(''a'', Obj Array [(''0'', Num 1), (''1'', Num 2), (''2'', Num 3)])]),
      Dict (Obj Plain [(''a'', Obj Array [(''0'', Num 9)])])]
     \<noteq> Inr [(''a'', Obj Array [(''0'', Num 9)])]"
  by (simp add: mergeMetadata_def mergeItem_def hasOwnProperty_def get_prop_def)

section \<open>Disabler: the retry gate\<close>

lemma thunkStorage_pick_one:
  "get_prop (thunkStorage_pick data [] key) key = get_prop data key"
  by (simp add: thunkStorage_pick_def get_prop_def hasOwnProperty_def)

lemma thunkStorage_set_one:
  "get_prop (thunkStorage_set data [(key, v)]) key = v"
  by (simp add: thunkStorage_set_def spread_def get_prop_set_prop)

lemma storedRecord_after_set:
  "keepsValues s \<Longrightarrow> storedRecord (storage_set s [(DISABLER_STORE, v)]) = v"
  by (cases s) (simp_all add: storedRecord_def thunkStorage_pick_one thunkStorage_set_one)

lemma resetRecord_matches: "matchesReset resetRecord"
  by (simp add: matchesReset_def resetRecord_def stateRecord_def get_prop_def expirationValue_def)

lemma retry_permanent: "expiration w = Some PERMANENT \<Longrightarrow> retry w = (False, w)"
  by (simp add: retry_def)

lemma retry_permanent_forever:
  "expiration w = Some PERMANENT \<Longrightarrow> ((\<lambda>s. snd (retry s)) ^^ n) w = w"
  by (induction n) (simp_all add: retry_permanent)

lemma retry_result:
  assumes "expiration w \<noteq> Some PERMANENT"
  shows "fst (retry w)"
    and "action (snd (retry w)) = TRANSMIT"
    and "expiration (snd (retry w)) = None"
    and "clock w \<le> clock (snd (retry w))"
    and "toNumber (expiration w) \<le> clock (snd (retry w))"
  using assms by (simp_all add: retry_def Let_def persist_def)

lemma retry_write:
  assumes "expiration w \<noteq> Some PERMANENT"
  shows "matchesReset (storedRecord (storage w)) \<Longrightarrow>
           storage (snd (retry w)) = storage w \<and> setCalls (snd (retry w)) = setCalls w"
    and "\<not> matchesReset (storedRecord (storage w)) \<Longrightarrow>
           setCalls (snd (retry w)) = setCalls w + 1
           \<and> storage (snd (retry w)) = storage_set (storage w) [(DISABLER_STORE, resetRecord)]"
  using assms
  by (auto simp add: retry_def Let_def persist_def storedRecord_def
      matchesReset_def expirationValue_def resetRecord_def)

lemma retry_keeps_kind:
  assumes "expiration w \<noteq> Some PERMANENT" and "keepsValues (storage w)"
  shows "keepsValues (storage (snd (retry w)))"
proof (cases "matchesReset (storedRecord (storage w))")
  case True
  with retry_write(1) [OF assms(1)] assms(2) show ?thesis by simp
next
  case False
  with retry_write(2) [OF assms(1)] assms(2) show ?thesis
    by (cases "storage w") simp_all
qed

lemma retry_stored_matches:
  assumes "expiration w \<noteq> Some PERMANENT" and "keepsValues (storage w)"
  shows "matchesReset (storedRecord (storage (snd (retry w))))"
proof (cases "matchesReset (storedRecord (storage w))")
  case True
  with retry_write(1) [OF assms(1)] show ?thesis by simp
next
  case False
  with retry_write(2) [OF assms(1)] storedRecord_after_set [OF assms(2)] resetRecord_matches
  show ?thesis by simp
qed

lemma retry_at_most_one_write:
  assumes "expiration w \<noteq> Some PERMANENT"
  shows "setCalls (snd (retry w)) \<le> setCalls w + 1"
proof (cases "matchesReset (storedRecord (storage w))")
  case True
  with retry_write(1) [OF assms] show ?thesis by simp
next
  case False
  with retry_write(2) [OF assms] show ?thesis by simp
qed

text \<open>
  What \<open>retry\<close> does. With a permanent expiration it returns false and changes nothing,
  so every later call returns false too. Otherwise it returns true with the clock at
  or past the expiration, \<open>action = TRANSMIT\<close> and \<open>expiration = null\<close>; it calls
  \<open>storage.set\<close> at most once, and only when the record read from storage is not the
  reset record. Over a storage object that returns values as stored, the reset record
  is then what is read back, and a second call right after the first writes nothing.
\<close>

lemma retry_gate:
  "(expiration w = Some PERMANENT \<longrightarrow>
      retry w = (False, w) \<and> (\<forall>n. fst (retry (((\<lambda>s. snd (retry s)) ^^ n) w)) = False))
   \<and> (expiration w \<noteq> Some PERMANENT \<longrightarrow>
        fst (retry w) = True
        \<and> clock w \<le> clock (snd (retry w))
        \<and> toNumber (expiration w) \<le> clock (snd (retry w))
        \<and> action (snd (retry w)) = TRANSMIT
        \<and> expiration (snd (retry w)) = None
        \<and> setCalls (snd (retry w)) \<le> setCalls w + 1
        \<and> (storedRecord (storage w) = stateRecord TRANSMIT None \<longrightarrow>
              storage (snd (retry w)) = storage w \<and> setCalls (snd (retry w)) = setCalls w)
        \<and> (keepsValues (storage w) \<longrightarrow>
              storedRecord (storage (snd (retry w))) = storedRecord (storage w)
                \<or> storedRecord (storage (snd (retry w))) = stateRecord TRANSMIT None)
        \<and> (keepsValues (storage w) \<longrightarrow>
              fst (retry (snd (retry w))) = True
              \<and> setCalls (snd (retry (snd (retry w)))) = setCalls (snd (retry w))
              \<and> setCalls (snd (retry (snd (retry w)))) \<le> setCalls w + 1))"
proof (intro conjI impI allI)
  assume p: "expiration w = Some PERMANENT"
  show "retry w = (False, w)"
    by (rule retry_permanent [OF p])
  show "fst (retry (((\<lambda>s. snd (retry s)) ^^ n) w)) = False" for n
    by (simp add: retry_permanent_forever [OF p] retry_permanent [OF p])
next
  assume np: "expiration w \<noteq> Some PERMANENT"
  let ?w1 = "snd (retry w)"
  show "fst (retry w) = True" "clock w \<le> clock ?w1" "toNumber (expiration w) \<le> clock ?w1"
    "action ?w1 = TRANSMIT" "expiration ?w1 = None"
    using retry_result [OF np] by simp_all
  show "setCalls ?w1 \<le> setCalls w + 1"
    by (rule retry_at_most_one_write [OF np])
next
  assume np: "expiration w \<noteq> Some PERMANENT"
    and same: "storedRecord (storage w) = stateRecord TRANSMIT None"
  from same resetRecord_matches have "matchesReset (storedRecord (storage w))"
    by (simp add: resetRecord_def)
  with retry_write(1) [OF np]
  show "storage (snd (retry w)) = storage w" "setCalls (snd (retry w)) = setCalls w"
    by simp_all
next
  assume np: "expiration w \<noteq> Some PERMANENT" and k: "keepsValues (storage w)"
  show "storedRecord (storage (snd (retry w))) = storedRecord (storage w)
        \<or> storedRecord (storage (snd (retry w))) = stateRecord TRANSMIT None"
  proof (cases "matchesReset (storedRecord (storage w))")
    case True
    with retry_write(1) [OF np] show ?thesis by simp
  next
    case False
    with retry_write(2) [OF np] storedRecord_after_set [OF k] show ?thesis
      by (simp add: resetRecord_def)
  qed
next
  assume np: "expiration w \<noteq> Some PERMANENT" and k: "keepsValues (storage w)"
  let ?w1 = "snd (retry w)"
  have np1: "expiration ?w1 \<noteq> Some PERMANENT"
    by (simp add: retry_result(3) [OF np])
  show "fst (retry ?w1) = True"
    using retry_result(1) [OF np1] by simp
  show second: "setCalls (snd (retry ?w1)) = setCalls ?w1"
    using retry_write(1) [OF np1] retry_stored_matches [OF np k] by simp
  show "setCalls (snd (retry ?w1)) \<le> setCalls w + 1"
    using second retry_at_most_one_write [OF np] by simp
qed

lemma blockedFor_value:
  "blockedFor = \<lparr>action = ''MAINTAIN'', expiration = Some 301000,
      storage = ThunkStorage [(''disablerState'',
                  Obj Plain [(''action'', Str ''MAINTAIN''), (''expiration'', Num 301000)])],
      clock = 1000, setCalls = 1\<rparr>"
  by (simp add: blockedFor_def handleBlockError_def persist_def PERMANENT_def
      thunkStorage_set_def spread_def DISABLER_STORE_def stateRecord_def expirationValue_def
      TRANSMIT_def MAINTAIN_def)

lemma blockedForever_value:
  "blockedForever = \<lparr>action = ''DROP'', expiration = Some (- 1),
      storage = ThunkStorage [(''disablerState'',
                  Obj Plain [(''action'', Str ''DROP''), (''expiration'', Num (- 1))])],
      clock = 1000, setCalls = 1\<rparr>"
  by (simp add: blockedForever_def handleBlockError_def persist_def PERMANENT_def
      thunkStorage_set_def spread_def DISABLER_STORE_def stateRecord_def expirationValue_def
      TRANSMIT_def DROP_def)

lemma retry_gate_exercised:
  "expiration blockedForever = Some PERMANENT
   \<and> retry blockedForever = (False, blockedForever)
   \<and> expiration blockedFor = Some 301000
   \<and> keepsValues (storage blockedFor)
   \<and> fst (retry blockedFor) = True
   \<and> 301000 \<le> clock (snd (retry blockedFor))
   \<and> setCalls blockedFor = 1
   \<and> setCalls (snd (retry blockedFor)) \<le> 2
   \<and> setCalls (snd (retry (snd (retry blockedFor)))) \<le> 2"
proof -
  have p: "expiration blockedForever = Some PERMANENT"
    by (simp add: blockedForever_value PERMANENT_def)
  have e: "expiration blockedFor = Some 301000" and c: "setCalls blockedFor = 1"
    and k: "keepsValues (storage blockedFor)"
    by (simp_all add: blockedFor_value)
  have np: "expiration blockedFor \<noteq> Some PERMANENT"
    by (simp add: e PERMANENT_def)
  from retry_gate [of blockedForever] p retry_gate [of blockedFor] np e c k
  show ?thesis
    by (simp add: toNumber_def)
qed

text \<open>
  Claim C2: two consecutive calls of \<open>retry\<close> write at most once. Over the
  \<open>localStorage\<close> wrapper they write twice. The wrapper stores
  \<open>String({ action, expiration })\<close>, the text \<open>[object Object]\<close>; the next call reads that
  string back as \<open>currentValue\<close>, whose \<open>action\<close> is \<open>undefined\<close>, and writes again. So
  does every later call.
\<close>

lemma pageDisabler_first_retry:
  "retry pageDisabler =
     (True, pageDisabler\<lparr>storage := LocalStorage [(''disablerState'', ''[object Object]'')],
                         setCalls := 1\<rparr>)"
  by (simp add: retry_def pageDisabler_def Let_def persist_def getWithCallback_def
      localStorage_getItem_def get_prop_def DISABLER_STORE_def setWithCallback_def
      stateRecord_def toNumber_def PERMANENT_def)

lemma pageDisabler_second_retry:
  "retry (pageDisabler\<lparr>storage := LocalStorage [(''disablerState'', ''[object Object]'')],
                        setCalls := 1\<rparr>) =
     (True, pageDisabler\<lparr>storage := LocalStorage [(''disablerState'', ''[object Object]'')],
                         setCalls := 2\<rparr>)"
  by (simp add: retry_def pageDisabler_def Let_def persist_def getWithCallback_def
      localStorage_getItem_def get_prop_def DISABLER_STORE_def setWithCallback_def
      stateRecord_def toNumber_def PERMANENT_def)

theorem C2_localStorage_retry_writes_every_time:
  "expiration pageDisabler = None
   \<and> fst (retry pageDisabler) = True
   \<and> setCalls pageDisabler = 0
   \<and> setCalls (snd (retry pageDisabler)) = 1
   \<and> storage (snd (retry pageDisabler)) = LocalStorage [(''disablerState'', ''[object Object]'')]
   \<and> fst (retry (snd (retry pageDisabler))) = True
   \<and> setCalls (snd (retry (snd (retry pageDisabler)))) = 2"
  unfolding pageDisabler_first_retry snd_conv fst_conv pageDisabler_second_retry
  by (simp add: pageDisabler_def)

theorem C2_localStorage_retry_witness:
  "setCalls (snd (retry (snd (retry pageDisabler)))) = setCalls pageDisabler + 2"
  using C2_localStorage_retry_writes_every_time by simp

section \<open>Queue: first in, first out\<close>

subsection \<open>Lists of operations and requests\<close>

lemma writes_append: "writes (xs @ ys) = writes xs @ writes ys"
  by (induction xs rule: writes.induct) simp_all

lemma cursors_append: "cursors (xs @ ys) = cursors xs @ cursors ys"
  by (induction xs rule: cursors.induct) simp_all

lemma enqueues_append: "enqueues (xs @ ys) = enqueues xs @ enqueues ys"
  by (induction xs rule: enqueues.induct) simp_all

lemma dequeues_append: "dequeues (xs @ ys) = dequeues xs @ dequeues ys"
  by (induction xs rule: dequeues.induct) simp_all

lemma writes_map_Add: "writes (map Add xs) = xs"
  by (induction xs) simp_all

lemma cursors_map_Add: "cursors (map Add xs) = []"
  by (induction xs) simp_all

lemma writes_map_OpenCursor: "writes (map OpenCursor ps) = []"
  by (induction ps) simp_all

lemma cursors_map_OpenCursor: "cursors (map OpenCursor ps) = ps"
  by (induction ps) simp_all

lemma no_cursors_all_writes: "cursors rs = [] \<Longrightarrow> map Add (writes rs) = rs"
  by (induction rs rule: cursors.induct) simp_all

lemma no_dequeues_all_enqueues: "dequeues ops = [] \<Longrightarrow> map ENQUEUE (enqueues ops) = ops"
  by (induction ops rule: dequeues.induct) simp_all

lemma no_writes_all_cursors: "writes rs = [] \<Longrightarrow> map OpenCursor (cursors rs) = rs"
  by (induction rs rule: writes.induct) simp_all

subsection \<open>The processing loop on an unparked backend\<close>

lemma processOperations_unparked:
  "nextItemPromise b = None \<Longrightarrow>
   processOperations ops b =
     (b\<lparr>requests := requests b @ map asRequest ops,
        addCalls := addCalls b + length (enqueues ops)\<rparr>, [])"
proof (induction ops arbitrary: b)
  case Nil
  then show ?case by simp
next
  case (Cons operation ops)
  show ?case
  proof (cases operation)
    case (ENQUEUE payload)
    let ?b1 = "b\<lparr>requests := requests b @ [Add payload], addCalls := addCalls b + 1\<rparr>"
    have "nextItemPromise ?b1 = None" using Cons.prems by simp
    from Cons.IH [OF this] ENQUEUE Cons.prems show ?thesis
      by (simp add: addItemToDB_def)
  next
    case (DEQUEUE r)
    let ?b1 = "b\<lparr>requests := requests b @ [OpenCursor r]\<rparr>"
    have "nextItemPromise ?b1 = None" using Cons.prems by simp
    from Cons.IH [OF this] DEQUEUE Cons.prems show ?thesis
      by (simp add: nextItemFromDB_def)
  qed
qed

lemma writes_asRequest: "writes (map asRequest ops) = enqueues ops"
  by (induction ops rule: enqueues.induct) simp_all

lemma cursors_asRequest: "cursors (map asRequest ops) = dequeues ops"
  by (induction ops rule: dequeues.induct) simp_all

lemma asRequest_ordered:
  "ops = map ENQUEUE es @ map DEQUEUE ds \<Longrightarrow>
   map asRequest ops = map Add es @ map OpenCursor ds"
  by simp

subsection \<open>Each backend operation is a FIFO step\<close>

lemma ordered_head_cursor:
  assumes "rs = map Add (writes rs) @ map OpenCursor (cursors rs)" and "rs = OpenCursor r # rest"
  shows "writes rest = []"
proof (cases "writes rs")
  case Nil
  with assms(2) show ?thesis by simp
next
  case (Cons w ws)
  with assms(1) have "rs = Add w # (map Add ws @ map OpenCursor (cursors rs))" by simp
  with assms(2) show ?thesis by simp
qed

lemma ordered_tail:
  assumes "rs = map Add (writes rs) @ map OpenCursor (cursors rs)" and "rs = x # rest"
  shows "rest = map Add (writes rest) @ map OpenCursor (cursors rest)"
proof (cases x)
  case (Add payload)
  with assms show ?thesis by simp
next
  case (OpenCursor r)
  with assms ordered_head_cursor [OF assms(1)] have "writes rest = []" by simp
  then show ?thesis by (simp add: no_writes_all_cursors)
qed

lemma memory_enqueue_fifo:
  assumes "wellFormed (IN_MEMORY m)"
  shows "fifoStep (IN_MEMORY m) [x] [] (backend_enqueue x (IN_MEMORY m))
       \<and> wellFormed (fst (backend_enqueue x (IN_MEMORY m)))"
  using assms
  by (cases "waiting m") (simp_all add: fifoStep_def memory_enqueue_def)

lemma memory_dequeue_fifo:
  assumes "wellFormed (IN_MEMORY m)" and "unsettled (IN_MEMORY m) = []"
  shows "fifoStep (IN_MEMORY m) [] [p] (backend_dequeue p (IN_MEMORY m))
       \<and> wellFormed (fst (backend_dequeue p (IN_MEMORY m)))"
proof -
  from assms(2) have w: "waiting m = None" by (cases "waiting m") simp_all
  show ?thesis
    using w by (cases "queued m") (simp_all add: fifoStep_def memory_dequeue_def)
qed

lemma idb_enqueue_fifo:
  assumes wf: "wellFormed (PERSISTENT b)" and quiet: "\<not> reading (PERSISTENT b)"
  shows "fifoStep (PERSISTENT b) [x] [] (backend_enqueue x (PERSISTENT b))
       \<and> wellFormed (fst (backend_enqueue x (PERSISTENT b)))"
proof (cases "db b")
  case True
  with wf have q: "dbOperationQueue b = []" and n: "nextDBOperationPromise b" by simp_all
  from quiet have c: "cursors (requests b) = []" by simp
  show ?thesis
  proof (cases "nextItemPromise b")
    case None
    with True q n c wf show ?thesis
      by (simp add: fifoStep_def idb_enqueue_def addItemToDBOperationQueue_def runProcessing_def
          addItemToDB_def writes_append cursors_append no_cursors_all_writes)
  next
    case (Some r)
    with wf have e: "rows b = []" "writes (requests b) = []" by simp_all
    from no_cursors_all_writes [OF c] e have rq: "requests b = []" by simp
    from Some True q n rq e show ?thesis
      by (simp add: fifoStep_def idb_enqueue_def addItemToDBOperationQueue_def runProcessing_def
          addItemToDB_def)
  qed
next
  case False
  with wf have n: "\<not> nextDBOperationPromise b" and r: "requests b = []"
    "nextItemPromise b = None" by simp_all
  from quiet have d: "dequeues (dbOperationQueue b) = []" by simp
  from False n r d show ?thesis
    by (simp add: fifoStep_def idb_enqueue_def addItemToDBOperationQueue_def
        enqueues_append dequeues_append no_dequeues_all_enqueues)
qed

lemma idb_dequeue_fifo:
  assumes wf: "wellFormed (PERSISTENT b)" and none: "unsettled (PERSISTENT b) = []"
  shows "fifoStep (PERSISTENT b) [] [p] (backend_dequeue p (PERSISTENT b))
       \<and> wellFormed (fst (backend_dequeue p (PERSISTENT b)))"
proof -
  from none have d: "dequeues (dbOperationQueue b) = []" and c: "cursors (requests b) = []"
    and np: "nextItemPromise b = None"
    by (simp_all, cases "nextItemPromise b", simp_all)
  show ?thesis
  proof (cases "db b")
    case True
    with wf have q: "dbOperationQueue b = []" and n: "nextDBOperationPromise b" by simp_all
    from True q n c np wf show ?thesis
      by (simp add: fifoStep_def idb_dequeue_def addItemToDBOperationQueue_def runProcessing_def
          nextItemFromDB_def writes_append cursors_append no_cursors_all_writes)
  next
    case False
    with wf have n: "\<not> nextDBOperationPromise b" and r: "requests b = []" by simp_all
    from False n r d np show ?thesis
      by (simp add: fifoStep_def idb_dequeue_def addItemToDBOperationQueue_def
          enqueues_append dequeues_append no_dequeues_all_enqueues)
  qed
qed

lemma openSucceeds_fifo:
  assumes wf: "wellFormed (PERSISTENT b)"
  shows "fifoStep (PERSISTENT b) [] [] (backend_event DbOpen (PERSISTENT b))
       \<and> wellFormed (fst (backend_event DbOpen (PERSISTENT b)))"
proof (cases "db b")
  case True
  with wf show ?thesis
    by (simp add: fifoStep_def openSucceeds_def)
next
  case False
  with wf have n: "\<not> nextDBOperationPromise b" and r: "requests b = []"
    and np: "nextItemPromise b = None"
    and o: "dbOperationQueue b
            = map ENQUEUE (enqueues (dbOperationQueue b)) @ map DEQUEUE (dequeues (dbOperationQueue b))"
    by simp_all
  have np': "nextItemPromise (b\<lparr>db := True, dbOperationQueue := []\<rparr>) = None"
    using np by simp
  have m: "map asRequest (dbOperationQueue b)
            = map Add (enqueues (dbOperationQueue b)) @ map OpenCursor (dequeues (dbOperationQueue b))"
    by (rule asRequest_ordered [OF o])
  show ?thesis
    using False r np
    by (simp add: fifoStep_def openSucceeds_def runProcessing_def
        processOperations_unparked [OF np'] writes_asRequest cursors_asRequest m
        writes_append cursors_append writes_map_Add cursors_map_Add
        writes_map_OpenCursor cursors_map_OpenCursor)
qed

lemma requestSucceeds_fifo:
  assumes wf: "wellFormed (PERSISTENT b)" and one: "length (unsettled (PERSISTENT b)) \<le> 1"
  shows "fifoStep (PERSISTENT b) [] [] (backend_event RequestDone (PERSISTENT b))
       \<and> wellFormed (fst (backend_event RequestDone (PERSISTENT b)))"
proof (cases "requests b")
  case Nil
  with wf show ?thesis
    by (simp add: fifoStep_def requestSucceeds_def)
next
  case (Cons request rest)
  from wf have o: "requests b = map Add (writes (requests b)) @ map OpenCursor (cursors (requests b))"
    by simp
  have o': "rest = map Add (writes rest) @ map OpenCursor (cursors rest)"
    by (rule ordered_tail [OF o Cons])
  from wf Cons have opened: "db b" by auto
  with wf have q: "dbOperationQueue b = []" and n: "nextDBOperationPromise b" by simp_all
  show ?thesis
  proof (cases request)
    case (Add payload)
    with Cons wf have np: "nextItemPromise b = None" by auto
    from Add Cons np opened q n o' show ?thesis
      by (simp add: fifoStep_def requestSucceeds_def)
  next
    case (OpenCursor r)
    have w: "writes rest = []"
      using ordered_head_cursor [OF o] Cons OpenCursor by simp
    from one Cons OpenCursor q have c: "cursors rest = []" and np: "nextItemPromise b = None"
      by (simp_all, cases "nextItemPromise b", simp_all)
    show ?thesis
    proof (cases "rows b")
      case Nil
      with OpenCursor Cons np opened q n o' w c show ?thesis
        by (simp add: fifoStep_def requestSucceeds_def)
    next
      case (Cons row others)
      obtain key payload where row: "row = (key, payload)" by (cases row)
      from Cons row OpenCursor \<open>requests b = request # rest\<close> np opened q n o' w c show ?thesis
        by (simp add: fifoStep_def requestSucceeds_def)
    qed
  qed
qed

subsection \<open>The loop resumed by a FIFO step\<close>

lemma awaitedPromise_single: "awaitedPromise st = [r] \<Longrightarrow> st = Awaiting r"
  by (cases st) simp_all

lemma awaitedPromise_short: "length (awaitedPromise st) \<le> 1"
  by (cases st) simp_all

lemma nonNull_append: "nonNull (xs @ ys) = nonNull xs @ nonNull ys"
  by (simp add: nonNull_def)

lemma resumeLoop_fulfilled:
  assumes "status q = Awaiting r"
  shows "status (resumeLoop cfg q (r, Fulfilled x)) = Idle"
    and "delivered (resumeLoop cfg q (r, Fulfilled x)) = delivered q @ nonNull [x]"
    and "backend (resumeLoop cfg q (r, Fulfilled x)) = backend q"
    and "run (resumeLoop cfg q (r, Fulfilled x)) = run q"
  using assms
  by (simp_all add: resumeLoop_def nonNull_def split: awaited.splits)

lemma settle_fifo:
  assumes step: "fifoStep b added asked res"
    and owed: "unsettled b @ asked = awaitedPromise (status q)"
    and wf: "wellFormed (fst res)"
    and started: "\<not> run q \<longrightarrow> status q = NotStarted"
  shows "consistent (settle cfg q res)"
    and "delivered (settle cfg q res) @ nonNull (held (backend (settle cfg q res)))
           = delivered q @ nonNull (held b @ added)"
proof -
  from step consider
      (quiet) "snd res = []" "held (fst res) = held b @ added"
              "unsettled (fst res) = unsettled b @ asked"
    | (hands) r x where "snd res = [(r, Fulfilled x)]" "unsettled b @ asked = [r]"
              "unsettled (fst res) = []" "held b @ added = x # held (fst res)"
    by (auto simp add: fifoStep_def)
  then have "consistent (settle cfg q res)
        \<and> delivered (settle cfg q res) @ nonNull (held (backend (settle cfg q res)))
           = delivered q @ nonNull (held b @ added)"
  proof cases
    case quiet
    with owed wf started show ?thesis
      by (simp add: settle_def consistent_def)
  next
    case hands
    let ?q1 = "q\<lparr>backend := fst res\<rparr>"
    from hands(2) owed have "status ?q1 = Awaiting r"
      by (simp add: awaitedPromise_single)
    note r = resumeLoop_fulfilled [OF this, of cfg x]
    from hands(2) owed started have "run q"
      by (auto dest: awaitedPromise_single)
    with hands r wf show ?thesis
      by (simp add: settle_def consistent_def nonNull_def)
  qed
  then show "consistent (settle cfg q res)"
    and "delivered (settle cfg q res) @ nonNull (held (backend (settle cfg q res)))
           = delivered q @ nonNull (held b @ added)"
    by simp_all
qed

lemma backend_enqueue_fifo:
  assumes "wellFormed b" and "\<not> reading b"
  shows "fifoStep b [x] [] (backend_enqueue x b) \<and> wellFormed (fst (backend_enqueue x b))"
proof (cases b)
  case (IN_MEMORY m)
  with assms memory_enqueue_fifo [of m x] show ?thesis by simp
next
  case (PERSISTENT i)
  with assms idb_enqueue_fifo [of i x] show ?thesis by simp
qed

lemma backend_dequeue_fifo:
  assumes "wellFormed b" and "unsettled b = []"
  shows "fifoStep b [] [p] (backend_dequeue p b) \<and> wellFormed (fst (backend_dequeue p b))"
proof (cases b)
  case (IN_MEMORY m)
  with assms memory_dequeue_fifo [of m p] show ?thesis by simp
next
  case (PERSISTENT i)
  with assms idb_dequeue_fifo [of i p] show ?thesis by simp
qed

lemma backend_event_fifo:
  assumes "wellFormed b" and "length (unsettled b) \<le> 1" and "e \<noteq> RequestError"
  shows "fifoStep b [] [] (backend_event e b) \<and> wellFormed (fst (backend_event e b))"
proof (cases b)
  case (IN_MEMORY m)
  with assms(1) show ?thesis
    by (cases e) (simp_all add: fifoStep_def)
next
  case (PERSISTENT i)
  show ?thesis
  proof (cases e)
    case DbOpen
    with PERSISTENT assms openSucceeds_fifo [of i] show ?thesis by simp
  next
    case RequestDone
    with PERSISTENT assms requestSucceeds_fifo [of i] show ?thesis by simp
  next
    case RequestError
    with assms(3) show ?thesis by simp
  qed (use PERSISTENT assms(1) in \<open>simp_all add: fifoStep_def\<close>)
qed

subsection \<open>One event\<close>

lemma step_fifo:
  assumes c: "consistent q" and ok: "e \<noteq> RequestError"
    and quiet: "case e of Enqueue item \<Rightarrow> \<not> reading (backend q) | other \<Rightarrow> True"
  shows "consistent (step cfg q e)
       \<and> delivered (step cfg q e) @ nonNull (held (backend (step cfg q e)))
           = delivered q @ nonNull (held (backend q) @ enqueued [e])"
proof -
  from c have wf: "wellFormed (backend q)"
    and owed: "unsettled (backend q) = awaitedPromise (status q)"
    and started: "\<not> run q \<longrightarrow> status q = NotStarted"
    by (simp_all add: consistent_def)
  show ?thesis
  proof (cases e)
    case (Enqueue x)
    with quiet have nr: "\<not> reading (backend q)" by simp
    from backend_enqueue_fifo [OF wf nr, of x]
    have f: "fifoStep (backend q) [x] [] (backend_enqueue x (backend q))"
      and w: "wellFormed (fst (backend_enqueue x (backend q)))" by simp_all
    from owed have o: "unsettled (backend q) @ [] = awaitedPromise (status q)" by simp
    from settle_fifo [OF f o w started, of cfg] Enqueue show ?thesis
      by (simp add: Queue_enqueue_def)
  next
    case Start
    show ?thesis
    proof (cases "run q")
      case True
      with Start c show ?thesis
        by (simp add: Queue_startDequeueLoop_def once_def)
    next
      case False
      with started have "status q = NotStarted" by simp
      with owed have "unsettled (backend q) = []" by simp
      with Start False wf show ?thesis
        by (simp add: Queue_startDequeueLoop_def once_def startDequeueLoop_def consistent_def
            split: awaited.splits bool.splits)
    qed
  next
    case Poll
    show ?thesis
    proof (cases "status q = Idle")
      case False
      with Poll c show ?thesis by (simp add: loopIteration_def)
    next
      case True
      with owed have none: "unsettled (backend q) = []" by simp
      from True started have r: "run q" by auto
      show ?thesis
      proof (cases "shouldDequeue cfg (shouldCalls q) = Returns True")
        case False
        with Poll True wf none r show ?thesis
          by (simp add: loopIteration_def consistent_def split: awaited.splits bool.splits)
      next
        case allowed: True
        let ?p = "promises q"
        let ?q1 = "q\<lparr>status := Awaiting ?p, promises := ?p + 1, shouldCalls := shouldCalls q + 1\<rparr>"
        from backend_dequeue_fifo [OF wf none, of ?p]
        have f: "fifoStep (backend q) [] [?p] (backend_dequeue ?p (backend q))"
          and w: "wellFormed (fst (backend_dequeue ?p (backend q)))" by simp_all
        from none have o: "unsettled (backend q) @ [?p] = awaitedPromise (status ?q1)" by simp
        from r have s: "\<not> run ?q1 \<longrightarrow> status ?q1 = NotStarted" by simp
        from settle_fifo [OF f o w s, of cfg] Poll True allowed show ?thesis
          by (simp add: loopIteration_def)
      qed
    qed
  next
    case RequestError
    with ok show ?thesis by simp
  next
    case DbOpen
    from owed awaitedPromise_short [of "status q"]
    have l: "length (unsettled (backend q)) \<le> 1" by simp
    from backend_event_fifo [OF wf l ok]
    have f: "fifoStep (backend q) [] [] (backend_event e (backend q))"
      and w: "wellFormed (fst (backend_event e (backend q)))" by simp_all
    from owed have o: "unsettled (backend q) @ [] = awaitedPromise (status q)" by simp
    from settle_fifo [OF f o w started, of cfg] DbOpen show ?thesis by simp
  next
    case RequestDone
    from owed awaitedPromise_short [of "status q"]
    have l: "length (unsettled (backend q)) \<le> 1" by simp
    from backend_event_fifo [OF wf l ok]
    have f: "fifoStep (backend q) [] [] (backend_event e (backend q))"
      and w: "wellFormed (fst (backend_event e (backend q)))" by simp_all
    from owed have o: "unsettled (backend q) @ [] = awaitedPromise (status q)" by simp
    from settle_fifo [OF f o w started, of cfg] RequestDone show ?thesis by simp
  qed
qed

subsection \<open>A run of events\<close>

lemma enqueued_append: "enqueued (xs @ ys) = enqueued xs @ enqueued ys"
  by (induction xs rule: enqueued.induct) simp_all

lemma enqueued_Cons: "enqueued (e # events) = enqueued [e] @ enqueued events"
  using enqueued_append [of "[e]" events] by simp

lemma runEvents_Cons: "runEvents cfg q (e # events) = runEvents cfg (step cfg q e) events"
  by (simp add: runEvents_def)

lemma runEvents_fifo:
  "consistent q \<Longrightarrow> undisturbed cfg q events \<Longrightarrow>
   consistent (runEvents cfg q events)
   \<and> delivered (runEvents cfg q events) @ nonNull (held (backend (runEvents cfg q events)))
       = delivered q @ nonNull (held (backend q)) @ nonNull (enqueued events)"
proof (induction events arbitrary: q)
  case Nil
  then show ?case by (simp add: runEvents_def nonNull_def)
next
  case (Cons e events)
  from Cons.prems(2) have ok: "e \<noteq> RequestError"
    and quiet: "case e of Enqueue item \<Rightarrow> \<not> reading (backend q) | other \<Rightarrow> True"
    and rest: "undisturbed cfg (step cfg q e) events"
    by simp_all
  from step_fifo [OF Cons.prems(1) ok quiet, of cfg]
  have c: "consistent (step cfg q e)"
    and a: "delivered (step cfg q e) @ nonNull (held (backend (step cfg q e)))
           = delivered q @ nonNull (held (backend q) @ enqueued [e])"
    by simp_all
  from Cons.IH [OF c rest] a show ?case
    unfolding runEvents_Cons enqueued_Cons [of e events]
    by (simp add: nonNull_append)
qed

lemma newQueue_consistent:
  assumes "newQueue available persisted kind = Inr q0"
  shows "consistent q0 \<and> delivered q0 = [] \<and> \<not> run q0
       \<and> held (backend q0) = (case backend q0 of
                                 IN_MEMORY m \<Rightarrow> []
                               | PERSISTENT b \<Rightarrow> map snd (storedRows persisted))"
proof -
  from assms have "q0 = queueOver (IN_MEMORY newMemoryQueue)
                   \<or> q0 = queueOver (PERSISTENT (newIdbQueue persisted))"
    by (auto simp add: newQueue_def autodetect_def split: QueueType.splits if_splits)
  then show ?thesis
    by (auto simp add: consistent_def queueOver_def newMemoryQueue_def newIdbQueue_def)
qed

subsection \<open>What resuming the loop leaves alone\<close>

lemma resumeLoop_frame:
  "backend (resumeLoop cfg q s) = backend q"
  "run (resumeLoop cfg q s) = run q"
  "shouldCalls (resumeLoop cfg q s) = shouldCalls q"
  "promises (resumeLoop cfg q s) = promises q"
  by (simp_all add: resumeLoop_def split: settled.splits awaited.splits)

lemma settle_frame:
  "backend (settle cfg q res) = fst res"
  "run (settle cfg q res) = run q"
  "shouldCalls (settle cfg q res) = shouldCalls q"
  "promises (settle cfg q res) = promises q"
proof -
  have "backend (foldl (resumeLoop cfg) q' out) = backend q'
      \<and> run (foldl (resumeLoop cfg) q' out) = run q'
      \<and> shouldCalls (foldl (resumeLoop cfg) q' out) = shouldCalls q'
      \<and> promises (foldl (resumeLoop cfg) q' out) = promises q'" for q' out
    by (induction out arbitrary: q') (simp_all add: resumeLoop_frame)
  then show "backend (settle cfg q res) = fst res" "run (settle cfg q res) = run q"
    "shouldCalls (settle cfg q res) = shouldCalls q" "promises (settle cfg q res) = promises q"
    by (simp_all add: settle_def)
qed

lemma step_keeps_run: "run q \<Longrightarrow> run (step cfg q e)"
  by (cases e)
     (simp_all add: Queue_enqueue_def settle_frame loopIteration_def Queue_startDequeueLoop_def
        once_def split: awaited.splits bool.splits)

lemma runEvents_keeps_run: "run q \<Longrightarrow> run (runEvents cfg q events)"
  by (induction events arbitrary: q) (simp_all add: runEvents_def step_keeps_run)

subsection \<open>Every item is handed to the handler at most once\<close>

lemma mset_nonNull: "mset (nonNull xs) = filter_mset (\<lambda>x. x \<noteq> Null) (mset xs)"
  by (simp add: nonNull_def)

lemma nonNull_mono: "mset xs \<subseteq># mset ys \<Longrightarrow> mset (nonNull xs) \<subseteq># mset (nonNull ys)"
  by (simp add: mset_nonNull multiset_filter_mono)

lemma resumeLoop_delivers:
  "mset (delivered (resumeLoop cfg q s)) \<subseteq># mset (delivered q) + mset (nonNull (fulfilled [s]))"
proof -
  obtain r v where s: "s = (r, v)" by (cases s)
  show ?thesis unfolding s
    by (cases v) (simp_all add: resumeLoop_def nonNull_def split: awaited.splits)
qed

lemma fulfilled_Cons: "fulfilled (s # out) = fulfilled [s] @ fulfilled out"
proof -
  obtain r v where s: "s = (r, v)" by (cases s)
  show ?thesis unfolding s by (cases v) simp_all
qed

lemma foldl_resumeLoop_delivers:
  "mset (delivered (foldl (resumeLoop cfg) q out))
     \<subseteq># mset (delivered q) + mset (nonNull (fulfilled out))"
proof (induction out arbitrary: q)
  case Nil
  then show ?case by simp
next
  case (Cons s out)
  have "mset (delivered (foldl (resumeLoop cfg) (resumeLoop cfg q s) out))
          \<subseteq># mset (delivered (resumeLoop cfg q s)) + mset (nonNull (fulfilled out))"
    by (rule Cons.IH)
  also have "\<dots> \<subseteq># (mset (delivered q) + mset (nonNull (fulfilled [s]))) + mset (nonNull (fulfilled out))"
    using resumeLoop_delivers [of cfg q s] by (simp add: subset_mset.add_right_mono)
  finally show ?case
    by (simp add: fulfilled_Cons [of s out] nonNull_append add.assoc)
qed

lemma fulfilled_append: "fulfilled (xs @ ys) = fulfilled xs @ fulfilled ys"
  by (induction xs rule: fulfilled.induct) simp_all

lemma processOperations_keeps:
  "rows (fst (processOperations ops b)) = rows b
   \<and> dbOperationQueue (fst (processOperations ops b)) = dbOperationQueue b
   \<and> mset (fulfilled (snd (processOperations ops b)))
       + mset (writes (requests (fst (processOperations ops b))))
     = mset (writes (requests b)) + mset (enqueues ops)"
proof (induction ops arbitrary: b)
  case Nil
  then show ?case by simp
next
  case (Cons operation ops)
  obtain b1 out1 where d: "dbOperationDispatch operation b = (b1, out1)"
    by (cases "dbOperationDispatch operation b")
  have one: "rows b1 = rows b \<and> dbOperationQueue b1 = dbOperationQueue b
      \<and> mset (fulfilled out1) + mset (writes (requests b1))
        = mset (writes (requests b)) + mset (enqueues [operation])"
    using d
    by (cases operation)
       (auto simp add: addItemToDB_def nextItemFromDB_def writes_append split: option.splits)
  obtain b2 out2 where p: "processOperations ops b1 = (b2, out2)"
    by (cases "processOperations ops b1")
  from Cons.IH [of b1] p have rest: "rows b2 = rows b1 \<and> dbOperationQueue b2 = dbOperationQueue b1
      \<and> mset (fulfilled out2) + mset (writes (requests b2))
        = mset (writes (requests b1)) + mset (enqueues ops)"
    by simp
  have e: "enqueues (operation # ops) = enqueues [operation] @ enqueues ops"
    using enqueues_append [of "[operation]" ops] by simp
  from one rest d p show ?case
    unfolding e
    by (simp add: fulfilled_append) (metis (no_types, lifting) add.assoc add.commute)
qed

lemma runProcessing_loss:
  "mset (fulfilled (snd (runProcessing handed b))) + mset (held (PERSISTENT (fst (runProcessing handed b))))
     = mset (held (PERSISTENT b)) + mset (enqueues handed)"
proof -
  let ?b0 = "b\<lparr>dbOperationQueue := []\<rparr>"
  let ?ops = "handed @ dbOperationQueue b"
  obtain b1 out where p: "processOperations ?ops ?b0 = (b1, out)"
    by (cases "processOperations ?ops ?b0")
  from processOperations_keeps [of ?ops ?b0] p
  have k: "rows b1 = rows b" "dbOperationQueue b1 = []"
    "mset (fulfilled out) + mset (writes (requests b1))
       = mset (writes (requests b)) + mset (enqueues ?ops)"
    by simp_all
  from p have r: "runProcessing handed b = (b1\<lparr>nextDBOperationPromise := True\<rparr>, out)"
    by (simp add: runProcessing_def)
  have "mset (fulfilled out) + mset (held (PERSISTENT (b1\<lparr>nextDBOperationPromise := True\<rparr>)))
        = mset (map snd (rows b)) + (mset (fulfilled out) + mset (writes (requests b1)))"
    using k(1,2) by simp
  also have "\<dots> = mset (map snd (rows b)) + (mset (writes (requests b)) + mset (enqueues ?ops))"
    using k(3) by simp
  also have "\<dots> = mset (held (PERSISTENT b)) + mset (enqueues handed)"
    by (simp add: enqueues_append)
  finally show ?thesis
    using r by simp
qed

lemma addItemToDBOperationQueue_loss:
  "mset (fulfilled (snd (addItemToDBOperationQueue operation b)))
     + mset (held (PERSISTENT (fst (addItemToDBOperationQueue operation b))))
     = mset (held (PERSISTENT b)) + mset (enqueues [operation])"
proof (cases "nextDBOperationPromise b")
  case True
  with runProcessing_loss [of "[operation]" "b\<lparr>nextDBOperationPromise := False\<rparr>"]
  show ?thesis
    by (simp add: addItemToDBOperationQueue_def)
next
  case False
  then show ?thesis
    by (simp add: addItemToDBOperationQueue_def enqueues_append)
qed

lemma backend_enqueue_loss: "lossStep b [x] (backend_enqueue x b)"
proof (cases b)
  case (IN_MEMORY m)
  then show ?thesis
    by (cases "waiting m") (simp_all add: lossStep_def memory_enqueue_def)
next
  case (PERSISTENT i)
  with addItemToDBOperationQueue_loss [of "ENQUEUE x" i] show ?thesis
    by (simp add: lossStep_def idb_enqueue_def case_prod_beta)
qed

lemma backend_dequeue_loss: "lossStep b [] (backend_dequeue p b)"
proof (cases b)
  case (IN_MEMORY m)
  then show ?thesis
    by (cases "queued m") (simp_all add: lossStep_def memory_dequeue_def)
next
  case (PERSISTENT i)
  with addItemToDBOperationQueue_loss [of "DEQUEUE p" i] show ?thesis
    by (simp add: lossStep_def idb_dequeue_def case_prod_beta)
qed

lemma requestSucceeds_loss:
  "mset (fulfilled (snd (requestSucceeds b))) + mset (held (PERSISTENT (fst (requestSucceeds b))))
     = mset (held (PERSISTENT b))"
  by (simp add: requestSucceeds_def split: list.splits IDBRequest.splits prod.splits)

lemma requestFails_loss:
  "mset (fulfilled (snd (requestFails b))) + mset (held (PERSISTENT (fst (requestFails b))))
     \<subseteq># mset (held (PERSISTENT b))"
  by (simp add: requestFails_def split: list.splits IDBRequest.splits)

lemma backend_event_loss: "lossStep b [] (backend_event e b)"
proof (cases b)
  case (IN_MEMORY m)
  then show ?thesis
    by (cases e) (simp_all add: lossStep_def)
next
  case (PERSISTENT i)
  show ?thesis
  proof (cases e)
    case DbOpen
    with PERSISTENT runProcessing_loss [of "[]" "i\<lparr>db := True\<rparr>"] show ?thesis
      by (simp add: lossStep_def openSucceeds_def case_prod_beta)
  next
    case RequestDone
    with PERSISTENT requestSucceeds_loss [of i] show ?thesis
      by (simp add: lossStep_def case_prod_beta)
  next
    case RequestError
    with PERSISTENT requestFails_loss [of i] show ?thesis
      by (simp add: lossStep_def case_prod_beta)
  qed (use PERSISTENT in \<open>simp_all add: lossStep_def\<close>)
qed

lemma settle_loss:
  assumes "lossStep b added res"
  shows "accounted (settle cfg q res)
           \<subseteq># mset (delivered q) + mset (nonNull (held b)) + mset (nonNull added)"
proof -
  from assms have "mset (fulfilled (snd res) @ held (fst res)) \<subseteq># mset (held b @ added)"
    by (simp add: lossStep_def)
  then have n: "mset (nonNull (fulfilled (snd res))) + mset (nonNull (held (fst res)))
        \<subseteq># mset (nonNull (held b)) + mset (nonNull added)"
    using nonNull_mono [of "fulfilled (snd res) @ held (fst res)" "held b @ added"]
    by (simp add: nonNull_append)
  have "accounted (settle cfg q res)
          = mset (delivered (foldl (resumeLoop cfg) (q\<lparr>backend := fst res\<rparr>) (snd res)))
            + mset (nonNull (held (fst res)))"
    by (simp add: accounted_def settle_frame) (simp add: settle_def)
  also have "\<dots> \<subseteq># (mset (delivered q) + mset (nonNull (fulfilled (snd res))))
                   + mset (nonNull (held (fst res)))"
    using foldl_resumeLoop_delivers [of cfg "q\<lparr>backend := fst res\<rparr>" "snd res"]
    by (simp add: subset_mset.add_right_mono)
  also have "\<dots> \<subseteq># mset (delivered q) + (mset (nonNull (held b)) + mset (nonNull added))"
    using n by (simp add: add.assoc)
  finally show ?thesis
    by (simp add: add.assoc)
qed

lemma step_loss:
  "accounted (step cfg q e) \<subseteq># accounted q + mset (nonNull (enqueued [e]))"
proof (cases e)
  case (Enqueue x)
  with settle_loss [OF backend_enqueue_loss [of "backend q" x], of cfg q] show ?thesis
    by (simp add: Queue_enqueue_def accounted_def)
next
  case Start
  then show ?thesis
    by (simp add: Queue_startDequeueLoop_def once_def startDequeueLoop_def accounted_def nonNull_def
        split: awaited.splits bool.splits)
next
  case Poll
  let ?q1 = "q\<lparr>status := Awaiting (promises q), promises := promises q + 1,
                 shouldCalls := shouldCalls q + 1\<rparr>"
  from settle_loss [OF backend_dequeue_loss [of "backend q" "promises q"], of cfg ?q1]
  have "accounted (settle cfg ?q1 (backend_dequeue (promises q) (backend q))) \<subseteq># accounted q"
    by (simp add: accounted_def nonNull_def)
  with Poll show ?thesis
    by (simp add: loopIteration_def nonNull_def accounted_def split: awaited.splits bool.splits)
next
  case DbOpen
  with settle_loss [OF backend_event_loss [of "backend q" e], of cfg q] show ?thesis
    by (simp add: accounted_def nonNull_def)
next
  case RequestDone
  with settle_loss [OF backend_event_loss [of "backend q" e], of cfg q] show ?thesis
    by (simp add: accounted_def nonNull_def)
next
  case RequestError
  with settle_loss [OF backend_event_loss [of "backend q" e], of cfg q] show ?thesis
    by (simp add: accounted_def nonNull_def)
qed

lemma runEvents_loss:
  "accounted (runEvents cfg q events) \<subseteq># accounted q + mset (nonNull (enqueued events))"
proof (induction events arbitrary: q)
  case Nil
  then show ?case by (simp add: runEvents_def nonNull_def)
next
  case (Cons e events)
  have "accounted (runEvents cfg (step cfg q e) events)
          \<subseteq># accounted (step cfg q e) + mset (nonNull (enqueued events))"
    by (rule Cons.IH)
  also have "\<dots> \<subseteq># (accounted q + mset (nonNull (enqueued [e]))) + mset (nonNull (enqueued events))"
    using step_loss [of cfg q e] by (simp add: subset_mset.add_right_mono)
  finally show ?case
    unfolding runEvents_Cons enqueued_Cons [of e events]
    by (simp add: nonNull_append add.assoc)
qed

subsection \<open>The loop empties the backend\<close>

text \<open>
  While the loop is looping, the store is reachable and \<open>shouldDequeue\<close> answers true,
  one more loop iteration or one more completed store request brings the queue closer
  to an empty backend.
\<close>

lemma settle_nothing: "settle cfg q (b, []) = q\<lparr>backend := b\<rparr>"
  by (simp add: settle_def)

lemma settle_one:
  "status q = Awaiting r \<Longrightarrow>
   status (settle cfg q (b, [(r, Fulfilled x)])) = Idle
   \<and> backend (settle cfg q (b, [(r, Fulfilled x)])) = b"
  by (simp add: settle_def resumeLoop_def split: awaited.splits)

lemma memory_progress:
  assumes c: "consistent q" and l: "looping (status q)" and b: "backend q = IN_MEMORY m"
    and h: "held (backend q) \<noteq> []" and a: "shouldDequeue cfg (shouldCalls q) = Returns True"
  shows "looping (status (step cfg q Poll)) \<and> opened (backend (step cfg q Poll))
       \<and> remaining (step cfg q Poll) < remaining q"
proof -
  from h b obtain x xs where q: "queued m = x # xs" by (cases "queued m") simp_all
  from c b q have w: "waiting m = None" by (simp add: consistent_def)
  with c b have "awaitedPromise (status q) = []" by (simp add: consistent_def)
  with l have i: "status q = Idle" by (cases "status q") simp_all
  let ?q1 = "q\<lparr>status := Awaiting (promises q), promises := promises q + 1,
                 shouldCalls := shouldCalls q + 1\<rparr>"
  have s: "step cfg q Poll
        = settle cfg ?q1 (IN_MEMORY (m\<lparr>queued := xs\<rparr>), [(promises q, Fulfilled x)])"
    using i a b q by (simp add: loopIteration_def memory_dequeue_def)
  have "status ?q1 = Awaiting (promises q)" by simp
  from settle_one [OF this, of cfg "IN_MEMORY (m\<lparr>queued := xs\<rparr>)" x] s b q i
  show ?thesis
    by (simp add: remaining_def)
qed

lemma idb_progress:
  assumes c: "consistent q" and l: "looping (status q)" and b: "backend q = PERSISTENT i"
    and o: "db i" and h: "held (backend q) \<noteq> []"
    and a: "shouldDequeue cfg (shouldCalls q) = Returns True"
  shows "\<exists>e. (e = Poll \<or> e = RequestDone)
       \<and> looping (status (step cfg q e)) \<and> opened (backend (step cfg q e))
       \<and> remaining (step cfg q e) < remaining q"
proof -
  from c b have wf: "wellFormed (PERSISTENT i)"
    and owed: "unsettled (PERSISTENT i) = awaitedPromise (status q)"
    by (simp_all add: consistent_def)
  from wf o have e: "dbOperationQueue i = []" and n: "nextDBOperationPromise i" by simp_all
  show ?thesis
  proof (cases "requests i")
    case Nil
    with h b e have r: "rows i \<noteq> []" by simp
    with wf have np: "nextItemPromise i = None" by auto
    with owed Nil e have "awaitedPromise (status q) = []" by simp
    with l have idle: "status q = Idle" by (cases "status q") simp_all
    let ?q1 = "q\<lparr>status := Awaiting (promises q), promises := promises q + 1,
                   shouldCalls := shouldCalls q + 1\<rparr>"
    have d: "idb_dequeue (promises q) i
               = (i\<lparr>requests := [OpenCursor (promises q)]\<rparr>, [])"
      using e n Nil
      by (cases i) (simp add: idb_dequeue_def addItemToDBOperationQueue_def runProcessing_def
          nextItemFromDB_def)
    have s: "step cfg q Poll = ?q1\<lparr>backend := PERSISTENT (i\<lparr>requests := [OpenCursor (promises q)]\<rparr>)\<rparr>"
      using idle a b d by (simp add: loopIteration_def settle_nothing)
    have "looping (status (step cfg q Poll)) \<and> opened (backend (step cfg q Poll))
       \<and> remaining (step cfg q Poll) < remaining q"
      unfolding s using o b Nil idle e by (simp add: remaining_def)
    then show ?thesis by blast
  next
    case (Cons request rest)
    show ?thesis
    proof (cases request)
      case (Add payload)
      have d: "requestSucceeds i
                 = (i\<lparr>requests := rest, rows := rows i @ [(nextKey i, payload)],
                      nextKey := nextKey i + 1\<rparr>, [])"
        using Cons Add by (simp add: requestSucceeds_def)
      have s: "step cfg q RequestDone
                 = q\<lparr>backend := PERSISTENT (i\<lparr>requests := rest,
                        rows := rows i @ [(nextKey i, payload)], nextKey := nextKey i + 1\<rparr>)\<rparr>"
        using b d by (simp add: settle_nothing)
      have "looping (status (step cfg q RequestDone)) \<and> opened (backend (step cfg q RequestDone))
         \<and> remaining (step cfg q RequestDone) < remaining q"
        unfolding s using o b l Cons Add by (simp add: remaining_def)
      then show ?thesis by blast
    next
      case (OpenCursor r)
      from owed Cons OpenCursor e have aw: "r # cursors rest @ parked (nextItemPromise i)
                                           = awaitedPromise (status q)" by simp
      then have st: "status q = Awaiting r"
        by (cases "status q") simp_all
      from wf have ord: "requests i = map Add (writes (requests i))
                                        @ map OpenCursor (cursors (requests i))"
        by simp
      have w: "writes rest = []"
        using ordered_head_cursor [OF ord] Cons OpenCursor by simp
      from h b e Cons OpenCursor w have "rows i \<noteq> []" by simp
      then obtain key payload others where r: "rows i = (key, payload) # others"
        by (cases "rows i") auto
      have d: "requestSucceeds i = (i\<lparr>requests := rest, rows := others\<rparr>, [(r, Fulfilled payload)])"
        using Cons OpenCursor r by (simp add: requestSucceeds_def)
      have s: "step cfg q RequestDone
                 = settle cfg q (PERSISTENT (i\<lparr>requests := rest, rows := others\<rparr>),
                                 [(r, Fulfilled payload)])"
        using b d by simp
      from settle_one [OF st, of cfg "PERSISTENT (i\<lparr>requests := rest, rows := others\<rparr>)" payload]
      have "looping (status (step cfg q RequestDone)) \<and> opened (backend (step cfg q RequestDone))
         \<and> remaining (step cfg q RequestDone) < remaining q"
        unfolding s using o b st Cons OpenCursor r e by (simp add: remaining_def)
      then show ?thesis by blast
    qed
  qed
qed

lemma progress_step:
  assumes c: "consistent q" and l: "looping (status q)" and o: "opened (backend q)"
    and h: "held (backend q) \<noteq> []" and a: "\<forall>n. shouldDequeue cfg n = Returns True"
  shows "\<exists>e. (e = Poll \<or> e = RequestDone)
       \<and> looping (status (step cfg q e)) \<and> opened (backend (step cfg q e))
       \<and> remaining (step cfg q e) < remaining q"
proof (cases "backend q")
  case (IN_MEMORY m)
  from memory_progress [OF c l IN_MEMORY h] a show ?thesis by blast
next
  case (PERSISTENT i)
  with o have "db i" by simp
  from idb_progress [OF c l PERSISTENT this h] a show ?thesis by blast
qed

lemma drains:
  assumes a: "\<forall>n. shouldDequeue cfg n = Returns True"
  shows "consistent q \<Longrightarrow> looping (status q) \<Longrightarrow> opened (backend q) \<Longrightarrow>
         \<exists>events. enqueued events = [] \<and> undisturbed cfg q events
                 \<and> held (backend (runEvents cfg q events)) = []"
proof (induction "remaining q" arbitrary: q rule: less_induct)
  case less
  show ?case
  proof (cases "held (backend q) = []")
    case True
    then have "enqueued [] = [] \<and> undisturbed cfg q []
               \<and> held (backend (runEvents cfg q [])) = []"
      by (simp add: runEvents_def)
    then show ?thesis by blast
  next
    case False
    from progress_step [OF less.prems False a]
    obtain e where e: "e = Poll \<or> e = RequestDone"
      and l: "looping (status (step cfg q e))" and o: "opened (backend (step cfg q e))"
      and m: "remaining (step cfg q e) < remaining q"
      by blast
    from e have ok: "e \<noteq> RequestError"
      and quiet: "case e of Enqueue item \<Rightarrow> \<not> reading (backend q) | other \<Rightarrow> True"
      and ne: "enqueued [e] = []"
      by auto
    from step_fifo [OF less.prems(1) ok quiet, of cfg] have c: "consistent (step cfg q e)"
      by simp
    from less.hyps [OF m c l o]
    obtain events where ev: "enqueued events = []" "undisturbed cfg (step cfg q e) events"
      "held (backend (runEvents cfg (step cfg q e) events)) = []"
      by blast
    from ev ok quiet ne have "enqueued (e # events) = [] \<and> undisturbed cfg q (e # events)
               \<and> held (backend (runEvents cfg q (e # events))) = []"
      using enqueued_Cons [of e events] by (simp add: runEvents_Cons)
    then show ?thesis by blast
  qed
qed

lemma runEvents_append:
  "runEvents cfg q (xs @ ys) = runEvents cfg (runEvents cfg q xs) ys"
  by (simp add: runEvents_def)

lemma undisturbed_append:
  "undisturbed cfg q (xs @ ys)
     = (undisturbed cfg q xs \<and> undisturbed cfg (runEvents cfg q xs) ys)"
  by (induction xs arbitrary: q) (simp_all add: runEvents_def)

text \<open>
  What holds of every undisturbed run. Start from a new queue over either backend,
  whatever rows an earlier session left in the store, and let any events happen, in any
  order, with any callbacks, as long as no store request fails and no item is enqueued
  while a dequeue is on its way to the store. Then at every moment the items handed to
  \<open>onDequeue\<close> so far, followed by the non-null items the backend still holds, are the
  non-null items the store held at the start followed by the non-null items passed to
  \<open>enqueue\<close> so far. And if at that moment the loop is looping, the store is reachable
  and \<open>shouldDequeue\<close> keeps answering true, then loop iterations and request
  completions alone bring the run to a moment where the handler has been given all of
  them, in this order.
\<close>

lemma undisturbed_run_in_enqueue_order:
  assumes "newQueue available persisted kind = Inr q0"
    and "undisturbed cfg q0 events"
  shows "delivered (runEvents cfg q0 events) @ nonNull (held (backend (runEvents cfg q0 events)))
           = nonNull (held (backend q0)) @ nonNull (enqueued events)
       \<and> (looping (status (runEvents cfg q0 events)) \<and> opened (backend (runEvents cfg q0 events))
          \<and> (\<forall>n. shouldDequeue cfg n = Returns True)
          \<longrightarrow> (\<exists>more. enqueued more = [] \<and> undisturbed cfg q0 (events @ more)
                 \<and> delivered (runEvents cfg q0 (events @ more))
                     = nonNull (held (backend q0)) @ nonNull (enqueued events)))"
proof -
  from newQueue_consistent [OF assms(1)]
  have c: "consistent q0" and d: "delivered q0 = []"
    by simp_all
  have account: "consistent (runEvents cfg q0 more)
        \<and> delivered (runEvents cfg q0 more) @ nonNull (held (backend (runEvents cfg q0 more)))
           = nonNull (held (backend q0)) @ nonNull (enqueued more)"
    if "undisturbed cfg q0 more" for more
    using runEvents_fifo [OF c that] d by simp
  let ?q = "runEvents cfg q0 events"
  have "\<exists>more. enqueued more = [] \<and> undisturbed cfg q0 (events @ more)
           \<and> delivered (runEvents cfg q0 (events @ more))
               = nonNull (held (backend q0)) @ nonNull (enqueued events)"
    if l: "looping (status ?q)" and o: "opened (backend ?q)"
      and a: "\<forall>n. shouldDequeue cfg n = Returns True"
  proof -
    from account [OF assms(2)] have "consistent ?q" by simp
    from drains [OF a this l o]
    obtain more where m: "enqueued more = []" "undisturbed cfg ?q more"
      "held (backend (runEvents cfg ?q more)) = []"
      by blast
    from assms(2) m(2) have u: "undisturbed cfg q0 (events @ more)"
      by (simp add: undisturbed_append)
    from account [OF u] m(1) m(3)
    have "delivered (runEvents cfg q0 (events @ more))
            = nonNull (held (backend q0)) @ nonNull (enqueued events)"
      by (simp add: runEvents_append enqueued_append nonNull_def)
    with m(1) u show ?thesis by blast
  qed
  with account [OF assms(2)] show ?thesis by blast
qed

text \<open>
  Two such runs on the persistent backend. Over a new database: one item is enqueued
  before the database opens, one after the loop started; both are held, and the loop
  can deliver them in enqueue order. Over a database in which an earlier session left
  the row \<open>old\<close>: that row is delivered first.
\<close>

lemma undisturbed_run_example:
  "newQueue True emptyStore AUTODETECT = Inr persistentQueue
   \<and> undisturbed plainConfig persistentQueue enqueueEarly
   \<and> enqueued enqueueEarly = [Str ''a'', Str ''b'']
   \<and> delivered (runEvents plainConfig persistentQueue enqueueEarly) = []
   \<and> held (backend (runEvents plainConfig persistentQueue enqueueEarly)) = [Str ''a'', Str ''b'']
   \<and> looping (status (runEvents plainConfig persistentQueue enqueueEarly))
   \<and> opened (backend (runEvents plainConfig persistentQueue enqueueEarly))
   \<and> (\<exists>more. enqueued more = [] \<and> undisturbed plainConfig persistentQueue (enqueueEarly @ more)
        \<and> delivered (runEvents plainConfig persistentQueue (enqueueEarly @ more))
            = [Str ''a'', Str ''b''])"
proof -
  have n: "newQueue True emptyStore AUTODETECT = Inr persistentQueue"
    by (simp add: newQueue_def autodetect_def persistentQueue_def)
  have u: "undisturbed plainConfig persistentQueue enqueueEarly"
    by code_simp
  have e: "enqueued enqueueEarly = [Str ''a'', Str ''b'']"
    by (simp add: enqueueEarly_def)
  have d: "delivered (runEvents plainConfig persistentQueue enqueueEarly) = []"
    by code_simp
  have h: "held (backend (runEvents plainConfig persistentQueue enqueueEarly))
             = [Str ''a'', Str ''b'']"
    by code_simp
  have l: "looping (status (runEvents plainConfig persistentQueue enqueueEarly))"
    by code_simp
  have o: "opened (backend (runEvents plainConfig persistentQueue enqueueEarly))"
    by code_simp
  have a: "\<forall>n. shouldDequeue plainConfig n = Returns True"
    by (simp add: plainConfig_def)
  have h0: "held (backend persistentQueue) = []"
    by code_simp
  from undisturbed_run_in_enqueue_order [OF n u] l o a e h0
  have "\<exists>more. enqueued more = [] \<and> undisturbed plainConfig persistentQueue (enqueueEarly @ more)
        \<and> delivered (runEvents plainConfig persistentQueue (enqueueEarly @ more))
            = [Str ''a'', Str ''b'']"
    by (simp add: nonNull_def)
  with n u e d h l o show ?thesis by blast
qed

lemma leftover_rows_are_delivered_first:
  "newQueue True leftoverStore AUTODETECT = Inr (queueOver (PERSISTENT (newIdbQueue leftoverStore)))
   \<and> delivered (runEvents plainConfig (queueOver (PERSISTENT (newIdbQueue leftoverStore)))
                  [DbOpen, Start, Enqueue (Str ''a''), Poll, RequestDone, RequestDone,
                   Poll, RequestDone])
       = [Str ''old'', Str ''a'']"
  by code_simp

text \<open>
  A \<open>null\<close> item is stored, read back and skipped by \<open>if (item !== null)\<close>: after
  \<open>enqueue(null)\<close> and \<open>enqueue(1)\<close> on the persistent backend, in an undisturbed run that
  empties the store, the handler was called with \<open>1\<close> only.
\<close>

lemma null_item_is_not_delivered:
  "undisturbed plainConfig persistentQueue enqueueNull
   \<and> enqueued enqueueNull = [Null, Num 1]
   \<and> held (backend (runEvents plainConfig persistentQueue enqueueNull)) = []
   \<and> delivered (runEvents plainConfig persistentQueue enqueueNull) = [Num 1]"
  by code_simp

text \<open>
  Once a dequeue is parked, nothing but a call of \<open>enqueue\<close> moves the queue: the loop
  iterations, the completions and failures of store requests and further calls of
  \<open>startDequeueLoop\<close> leave it as it is, whatever rows the store holds.
\<close>

lemma parked_step:
  assumes "dequeueParked q" and "enqueued [e] = []"
  shows "step cfg q e = q"
proof -
  from assms(1) obtain b p where b: "backend q = PERSISTENT b" and r: "run q"
    and o: "db b" and n: "requests b = []" and s: "status q = Awaiting p"
    by (auto simp add: dequeueParked_def split: backend.splits option.splits)
  have same: "q\<lparr>backend := PERSISTENT b\<rparr> = q"
    using b by simp
  show ?thesis
  proof (cases e)
    case (Enqueue x)
    with assms(2) show ?thesis by simp
  next
    case Start
    with r show ?thesis by (simp add: Queue_startDequeueLoop_def once_def)
  next
    case Poll
    with s show ?thesis by (simp add: loopIteration_def)
  next
    case DbOpen
    with b o same show ?thesis by (simp add: openSucceeds_def settle_nothing)
  next
    case RequestDone
    with b n same show ?thesis by (simp add: requestSucceeds_def settle_nothing)
  next
    case RequestError
    with b n same show ?thesis by (simp add: requestFails_def settle_nothing)
  qed
qed

lemma parked_until_next_enqueue:
  "dequeueParked q \<Longrightarrow> enqueued events = [] \<Longrightarrow> runEvents cfg q events = q"
proof (induction events)
  case Nil
  then show ?case by (simp add: runEvents_def)
next
  case (Cons e events)
  from Cons.prems(2) have e: "enqueued [e] = []" and rest: "enqueued events = []"
    using enqueued_Cons [of e events] by simp_all
  from parked_step [OF Cons.prems(1) e, of cfg] Cons.IH [OF Cons.prems(1) rest]
  show ?case by (simp add: runEvents_Cons)
qed

text \<open>
  Claim C1. The claim fails on the persistent backend for an item that is enqueued
  while a dequeue is on its way to the store. \<open>startProcessing\<close> awaits
  \<open>nextItemFromDB\<close>, which returns as soon as its cursor request is placed, so the
  \<open>add\<close> request of the item \<open>a\<close> is placed behind the pending cursor request. The cursor
  finds no row and parks the dequeue; \<open>a\<close> is then stored, and the parked loop is not
  given it. The next item \<open>b\<close> is handed to the parked dequeue and overtakes \<open>a\<close>: the
  handler is called with \<open>b\<close>, then with \<open>a\<close>.
\<close>

theorem C1_enqueue_during_dequeue_is_overtaken:
  "newQueue True emptyStore AUTODETECT = Inr persistentQueue
   \<and> enqueued enqueueStranded = [Str ''a'']
   \<and> delivered (runEvents plainConfig persistentQueue enqueueStranded) = []
   \<and> held (backend (runEvents plainConfig persistentQueue enqueueStranded)) = [Str ''a'']
   \<and> dequeueParked (runEvents plainConfig persistentQueue enqueueStranded)
   \<and> enqueued enqueueOvertaken = [Str ''a'', Str ''b'']
   \<and> delivered (runEvents plainConfig persistentQueue enqueueOvertaken) = [Str ''b'', Str ''a'']"
proof -
  have n: "newQueue True emptyStore AUTODETECT = Inr persistentQueue"
    by (simp add: newQueue_def autodetect_def persistentQueue_def)
  have "enqueued enqueueStranded = [Str ''a'']"
    and "delivered (runEvents plainConfig persistentQueue enqueueStranded) = []"
    and "held (backend (runEvents plainConfig persistentQueue enqueueStranded)) = [Str ''a'']"
    and "dequeueParked (runEvents plainConfig persistentQueue enqueueStranded)"
    and "enqueued enqueueOvertaken = [Str ''a'', Str ''b'']"
    and "delivered (runEvents plainConfig persistentQueue enqueueOvertaken) = [Str ''b'', Str ''a'']"
    by code_simp+
  with n show ?thesis by blast
qed

text \<open>
  Claim C3. On a queue as the constructor leaves it, the first call of
  \<open>startDequeueLoop\<close> runs the loop's start (with an \<open>initialize\<close> that returns true the
  loop then stands before its first \<open>shouldDequeue\<close>), and every later call, whatever
  happened to the queue in between and whatever configuration it is given, raises the
  error of \<open>once\<close>.
\<close>

theorem C3_second_start_raises:
  "Queue_startDequeueLoop cfg (queueOver b) = Inr ((startDequeueLoop cfg (queueOver b))\<lparr>run := True\<rparr>)
   \<and> (initialize cfg = Returns True \<longrightarrow>
        (\<forall>q1. Queue_startDequeueLoop cfg (queueOver b) = Inr q1 \<longrightarrow> status q1 = Idle))
   \<and> (\<forall>q1 events cfg2. Queue_startDequeueLoop cfg (queueOver b) = Inr q1 \<longrightarrow>
          Queue_startDequeueLoop cfg2 (runEvents cfg q1 events) = Inl CalledMoreThanOnce)"
proof (intro conjI allI impI)
  show first: "Queue_startDequeueLoop cfg (queueOver b)
                 = Inr ((startDequeueLoop cfg (queueOver b))\<lparr>run := True\<rparr>)"
    by (simp add: Queue_startDequeueLoop_def once_def queueOver_def)
  show "status q1 = Idle"
    if "initialize cfg = Returns True" and "Queue_startDequeueLoop cfg (queueOver b) = Inr q1" for q1
    using that first by (auto simp add: startDequeueLoop_def)
  show "Queue_startDequeueLoop cfg2 (runEvents cfg q1 events) = Inl CalledMoreThanOnce"
    if "Queue_startDequeueLoop cfg (queueOver b) = Inr q1" for q1 events cfg2
  proof -
    from that first have "run q1" by auto
    then have "run (runEvents cfg q1 events)"
      by (rule runEvents_keeps_run)
    then show ?thesis
      by (simp add: Queue_startDequeueLoop_def once_def)
  qed
qed

theorem C3_second_start_witness:
  "initialize plainConfig = Returns True
   \<and> Queue_startDequeueLoop plainConfig persistentQueue
       = Inr ((startDequeueLoop plainConfig persistentQueue)\<lparr>run := True\<rparr>)
   \<and> status ((startDequeueLoop plainConfig persistentQueue)\<lparr>run := True\<rparr>) = Idle
   \<and> Queue_startDequeueLoop failingConfig
        (runEvents plainConfig ((startDequeueLoop plainConfig persistentQueue)\<lparr>run := True\<rparr>)
           [Enqueue (Num 1), Poll])
       = Inl CalledMoreThanOnce"
proof -
  let ?q1 = "(startDequeueLoop plainConfig persistentQueue)\<lparr>run := True\<rparr>"
  note t = C3_second_start_raises [of plainConfig "PERSISTENT (newIdbQueue emptyStore)", folded persistentQueue_def]
  have i: "initialize plainConfig = Returns True"
    by (simp add: plainConfig_def)
  from t have f: "Queue_startDequeueLoop plainConfig persistentQueue = Inr ?q1"
    by blast
  from t f i have s: "status ?q1 = Idle"
    by blast
  from t f have e: "Queue_startDequeueLoop failingConfig
        (runEvents plainConfig ?q1 [Enqueue (Num 1), Poll]) = Inl CalledMoreThanOnce"
    by blast
  from i f s e show ?thesis
    by blast
qed

text \<open>
  Claim C4. When the awaited dequeue yields a non-null item and \<open>onDequeue\<close> raises, the
  loop has called the handler once with the item, reports
  \<open>QUEUE ERROR: Unable to process item\<close>, leaves the backend as it was (the item is not
  put back) and stands at the top of the loop again: the next iteration calls
  \<open>shouldDequeue\<close> and, when allowed, \<open>dequeue\<close>. And in every run, whatever the
  callbacks, the store and the order of events do, the items handed to \<open>onDequeue\<close>
  are, counted with multiplicity, among the backend's initial items and the non-null
  items enqueued: no enqueued item is handed to the handler twice.
\<close>

theorem C4_failed_item_is_dropped:
  "(status q = Awaiting p \<and> item \<noteq> Null \<and> onDequeue cfg (length (delivered q)) item = Raises \<longrightarrow>
      delivered (resumeLoop cfg q (p, Fulfilled item)) = delivered q @ [item]
      \<and> reported (resumeLoop cfg q (p, Fulfilled item))
          = reported q @ [''QUEUE ERROR: Unable to process item'']
      \<and> backend (resumeLoop cfg q (p, Fulfilled item)) = backend q
      \<and> status (resumeLoop cfg q (p, Fulfilled item)) = Idle
      \<and> shouldCalls (loopIteration cfg (resumeLoop cfg q (p, Fulfilled item))) = shouldCalls q + 1
      \<and> (shouldDequeue cfg (shouldCalls q) = Returns True \<longrightarrow>
            promises (loopIteration cfg (resumeLoop cfg q (p, Fulfilled item))) = promises q + 1))
   \<and> mset (delivered (runEvents cfg (queueOver b) events))
        \<subseteq># mset (nonNull (held b)) + mset (nonNull (enqueued events))"
proof (intro conjI impI)
  assume a: "status q = Awaiting p \<and> item \<noteq> Null
             \<and> onDequeue cfg (length (delivered q)) item = Raises"
  let ?q1 = "resumeLoop cfg q (p, Fulfilled item)"
  from a show d: "delivered ?q1 = delivered q @ [item]"
    and "reported ?q1 = reported q @ [''QUEUE ERROR: Unable to process item'']"
    and "backend ?q1 = backend q"
    and i: "status ?q1 = Idle"
    by (simp_all add: resumeLoop_def)
  have f: "shouldCalls ?q1 = shouldCalls q" "promises ?q1 = promises q"
    by (simp_all add: resumeLoop_frame)
  from i f show "shouldCalls (loopIteration cfg ?q1) = shouldCalls q + 1"
    by (simp add: loopIteration_def settle_frame split: awaited.splits bool.splits)
  from i f show "promises (loopIteration cfg ?q1) = promises q + 1"
    if "shouldDequeue cfg (shouldCalls q) = Returns True"
    using that by (simp add: loopIteration_def settle_frame)
next
  have "mset (delivered (runEvents cfg (queueOver b) events))
          \<subseteq># accounted (runEvents cfg (queueOver b) events)"
    by (simp add: accounted_def)
  also have "\<dots> \<subseteq># accounted (queueOver b) + mset (nonNull (enqueued events))"
    by (rule runEvents_loss)
  also have "accounted (queueOver b) = mset (nonNull (held b))"
    by (simp add: accounted_def queueOver_def)
  finally show "mset (delivered (runEvents cfg (queueOver b) events))
        \<subseteq># mset (nonNull (held b)) + mset (nonNull (enqueued events))" .
qed

theorem C4_failed_item_witness:
  "status (runEvents failingConfig persistentQueue [DbOpen, Start, Poll, RequestDone]) = Awaiting 0
   \<and> Str ''a'' \<noteq> Null
   \<and> onDequeue failingConfig 0 (Str ''a'') = Raises
   \<and> delivered (runEvents failingConfig persistentQueue [DbOpen, Start, Poll, RequestDone]) = []
   \<and> delivered (runEvents failingConfig persistentQueue enqueueLate) = [Str ''a'', Str ''b'']
   \<and> reported (runEvents failingConfig persistentQueue enqueueLate)
        = [''QUEUE ERROR: Unable to process item'']
   \<and> delivered (resumeLoop failingConfig
          (runEvents failingConfig persistentQueue [DbOpen, Start, Poll, RequestDone])
          (0, Fulfilled (Str ''a''))) = [Str ''a'']
   \<and> status (resumeLoop failingConfig
          (runEvents failingConfig persistentQueue [DbOpen, Start, Poll, RequestDone])
          (0, Fulfilled (Str ''a''))) = Idle"
proof -
  let ?q = "runEvents failingConfig persistentQueue [DbOpen, Start, Poll, RequestDone]"
  have s: "status ?q = Awaiting 0" by code_simp
  have d: "delivered ?q = []" by code_simp
  have r: "onDequeue failingConfig 0 (Str ''a'') = Raises"
    by (simp add: failingConfig_def)
  have l: "delivered (runEvents failingConfig persistentQueue enqueueLate) = [Str ''a'', Str ''b'']"
    "reported (runEvents failingConfig persistentQueue enqueueLate)
        = [''QUEUE ERROR: Unable to process item'']"
    by code_simp+
  from C4_failed_item_is_dropped [of ?q 0 "Str ''a''" failingConfig "PERSISTENT (newIdbQueue emptyStore)" enqueueLate]
    s d r l show ?thesis
    by simp
qed

text \<open>
  Claim C6. A cursor request that finds the store empty parks its dequeue. While a
  dequeue is parked, \<open>addItemToDB\<close> fulfils it with the item and changes nothing else:
  no request is placed, \<open>objectStore.add\<close> is not called, and the new state does not
  depend on the item, so nothing can write it to the store later. The same holds for
  \<open>enqueue\<close> itself when the processing loop is waiting for its next operation, as it
  is whenever a dequeue is parked in a run.
\<close>

theorem C6_enqueue_to_parked_dequeue_bypasses_store:
  "(requests b = OpenCursor r # rest \<and> rows b = [] \<longrightarrow>
      requestSucceeds b = (b\<lparr>requests := rest, nextItemPromise := Some r\<rparr>, []))
   \<and> (nextItemPromise b = Some r \<longrightarrow>
        addItemToDB item b = (b\<lparr>nextItemPromise := None\<rparr>, [(r, Fulfilled item)]))
   \<and> (nextItemPromise b = Some r \<and> nextDBOperationPromise b \<and> dbOperationQueue b = [] \<longrightarrow>
        idb_enqueue item b = (b\<lparr>nextItemPromise := None\<rparr>, [(r, Fulfilled item)])
        \<and> rows (fst (idb_enqueue item b)) = rows b
        \<and> requests (fst (idb_enqueue item b)) = requests b
        \<and> addCalls (fst (idb_enqueue item b)) = addCalls b)"
proof (intro conjI impI)
  assume "requests b = OpenCursor r # rest \<and> rows b = []"
  then show "requestSucceeds b = (b\<lparr>requests := rest, nextItemPromise := Some r\<rparr>, [])"
    by (simp add: requestSucceeds_def)
next
  assume "nextItemPromise b = Some r"
  then show "addItemToDB item b = (b\<lparr>nextItemPromise := None\<rparr>, [(r, Fulfilled item)])"
    by (simp add: addItemToDB_def)
next
  assume a: "nextItemPromise b = Some r \<and> nextDBOperationPromise b \<and> dbOperationQueue b = []"
  then show e: "idb_enqueue item b = (b\<lparr>nextItemPromise := None\<rparr>, [(r, Fulfilled item)])"
    by (cases b) (simp add: idb_enqueue_def addItemToDBOperationQueue_def runProcessing_def
        addItemToDB_def)
  show "rows (fst (idb_enqueue item b)) = rows b"
    "requests (fst (idb_enqueue item b)) = requests b"
    "addCalls (fst (idb_enqueue item b)) = addCalls b"
    unfolding e by simp_all
qed

theorem C6_bypass_witness:
  "backend (runEvents plainConfig persistentQueue [DbOpen, Start, Poll]) = PERSISTENT emptyStoreRead
   \<and> nextItemPromise (fst (requestSucceeds emptyStoreRead)) = Some 0
   \<and> idb_enqueue (Str ''a'') (fst (requestSucceeds emptyStoreRead))
       = (emptyStoreRead\<lparr>requests := []\<rparr>, [(0, Fulfilled (Str ''a''))])
   \<and> addCalls (fst (idb_enqueue (Str ''a'') (fst (requestSucceeds emptyStoreRead)))) = 0
   \<and> rows (fst (idb_enqueue (Str ''a'') (fst (requestSucceeds emptyStoreRead)))) = []"
proof -
  have b: "backend (runEvents plainConfig persistentQueue [DbOpen, Start, Poll]) = PERSISTENT emptyStoreRead"
    by code_simp
  have p: "requests emptyStoreRead = OpenCursor 0 # [] \<and> rows emptyStoreRead = []"
    by (simp add: emptyStoreRead_def)
  let ?b1 = "emptyStoreRead\<lparr>requests := [], nextItemPromise := Some 0\<rparr>"
  have q: "nextItemPromise ?b1 = Some 0 \<and> nextDBOperationPromise ?b1 \<and> dbOperationQueue ?b1 = []"
    by (simp add: emptyStoreRead_def)
  from C6_enqueue_to_parked_dequeue_bypasses_store [of emptyStoreRead 0 "[]"] p
  have s: "requestSucceeds emptyStoreRead = (?b1, [])" by simp
  from C6_enqueue_to_parked_dequeue_bypasses_store [of ?b1 0 "[]" "Str ''a''"] q
  have e: "idb_enqueue (Str ''a'') ?b1 = (?b1\<lparr>nextItemPromise := None\<rparr>, [(0, Fulfilled (Str ''a''))])"
    by simp
  from b s e show ?thesis
    by (simp add: emptyStoreRead_def)
qed

section \<open>Orchestrator: start-up\<close>

lemma compiled_metadata_merges:
  "\<exists>merged. mergeMetadataFrom masterDict (fst (compileMetadata tasks)) = Inr merged"
proof (induction tasks arbitrary: masterDict)
  case Nil
  then show ?case by simp
next
  case (Cons task tasks)
  obtain name result where t: "task = (name, result)" by (cases task)
  show ?case unfolding t
    by (cases result) (simp_all add: Cons.IH case_prod_beta)
qed

lemma lockFieldsAsync_dicts:
  assumes "mergeMetadata data = Inr merged"
  shows "lockFieldsAsync data st =
           (if list_all (\<lambda>r. r = Fulfils) (hooksOf setField_hook (loggersEnabled st))
            then st\<lparr>fieldsSent := fieldsSent st @ [merged]\<rparr>
            else st\<lparr>fieldsSent := fieldsSent st @ [merged], currentState := Pending_rejected\<rparr>)"
  using assms by (simp add: lockFieldsAsync_def Let_def)

lemma init_state:
  assumes i: "init env source version loggers options moduleLoaded = Inr st1"
    and d: "useDisabler options \<longrightarrow> storage_defined env"
  shows "(ThrowsSync \<in> set (hooksOf init_hook loggers) \<longrightarrow>
            initialized st1 = IN_PROGRESS \<and> currentState st1 = Pending_rejected
            \<and> errorLog st1 = [])
       \<and> (ThrowsSync \<notin> set (hooksOf init_hook loggers) \<longrightarrow>
            currentState st1 = Pending_ok
            \<and> initialized st1 = (if Rejects \<in> set (hooksOf init_hook loggers) then ERROR
                                  else LOGGERS_READY))
       \<and> loggersEnabled st1 = loggers
       \<and> pendingMetadata st1 = metadataTasks options
       \<and> (\<exists>q. queue st1 = Some q \<and> \<not> run q)"
proof -
  from i obtain q
    where nq: "newQueue (indexedDB_defined env) (objectStore env) (queueType options) = Inr q"
    by (auto simp add: init_def split: if_splits sum.splits)
  from nq have r: "\<not> run q"
    by (auto simp add: newQueue_def queueOver_def split: QueueType.splits if_splits)
  let ?st1 = "moduleLoaded\<lparr>queue := Some q, loggersEnabled := loggers,
                 initialized := IN_PROGRESS, pendingSource := source,
                 pendingVersion := version, pendingMetadata := metadataTasks options\<rparr>"
  have s2: "(if useDisabler options then thenStep (disablerInitStep (storage_defined env)) ?st1
            else ?st1) = ?st1"
    using d by (simp add: thenStep_def disablerInitStep_def)
  from i nq s2 have st1: "st1 = thenStep initializeLoggers ?st1"
    by (simp add: init_def Let_def split: if_splits)
  have ok: "currentState ?st1 = Pending_ok" and el: "errorLog ?st1 = []"
    by (simp_all add: moduleLoaded_def)
  show ?thesis
    unfolding st1 using ok el r
    by (simp add: thenStep_def initializeLoggers_def Let_def)
qed

lemma go_state:
  assumes ok: "currentState st = Pending_ok" and q: "queue st = Some q" and r: "\<not> run q"
  shows "(list_all (\<lambda>r. r = Fulfils) (hooksOf setField_hook (loggersEnabled st)) \<longrightarrow>
            (initialized st = ERROR \<longrightarrow>
               initialized (go retrying sending st) = ERROR
               \<and> errorLog (go retrying sending st)
                    = errorLog st @ snd (compileMetadata (pendingMetadata st))
                      @ [''Cannot start dequeue loop: logger initialization failed'']
               \<and> \<not> loopStarted (go retrying sending st))
            \<and> (initialized st \<noteq> ERROR \<longrightarrow>
               initialized (go retrying sending st) = READY
               \<and> errorLog (go retrying sending st)
                    = errorLog st @ snd (compileMetadata (pendingMetadata st))
               \<and> loopStarted (go retrying sending st)
               \<and> (\<exists>q1. queue (go retrying sending st) = Some q1 \<and> status q1 = Idle)))
       \<and> (\<not> list_all (\<lambda>r. r = Fulfils) (hooksOf setField_hook (loggersEnabled st)) \<longrightarrow>
            initialized (go retrying sending st) = initialized st
            \<and> errorLog (go retrying sending st) = errorLog st
            \<and> \<not> loopStarted (go retrying sending st))"
proof -
  let ?data = "[Dict (Obj Plain [(''source'', Str (pendingSource st)),
                                  (''version'', Str (pendingVersion st))])]"
  let ?all = "list_all (\<lambda>r. r = Fulfils) (hooksOf setField_hook (loggersEnabled st))"
  let ?results = "fst (compileMetadata (pendingMetadata st))"
  let ?errors = "snd (compileMetadata (pendingMetadata st))"
  obtain m1 where m1: "mergeMetadata ?data = Inr m1"
    by (simp add: mergeMetadata_def mergeItem_def)
  obtain m2 where m2: "mergeMetadata ?results = Inr m2"
    using compiled_metadata_merges [of "[]" "pendingMetadata st"] by (auto simp add: mergeMetadata_def)
  show ?thesis
  proof (cases ?all)
    case False
    with ok q r show ?thesis
      by (simp add: go_def Let_def lockFields_def thenStep_def lockFieldsAsync_dicts [OF m1]
          loopStarted_def)
  next
    case True
    let ?st2 = "st\<lparr>errorLog := errorLog st @ ?errors, fieldsSent := fieldsSent st @ [m1, m2]\<rparr>"
    from True ok have g: "go retrying sending st = startStep retrying sending ?st2"
      by (simp add: go_def Let_def lockFields_def thenStep_def lockFieldsAsync_dicts [OF m1]
          lockFieldsAsync_dicts [OF m2] case_prod_beta)
    from True q r show ?thesis
      unfolding g
      by (simp add: startStep_def Let_def loopStarted_def Queue_startDequeueLoop_def once_def
          startDequeueLoop_def)
  qed
qed

text \<open>
  What the start-up does when no \<open>init()\<close> hook throws. Let \<open>init\<close> succeed on the
  freshly loaded module, with storage defined when the disabler is used. If some
  sink's \<open>init()\<close> is rejected the state becomes \<open>ERROR\<close>, whatever the other sinks do,
  and a subsequent \<open>go()\<close> does not start the dequeue loop; it reports the error, after
  the errors of the failed metadata tasks, when its two lock-field broadcasts succeed.
  If every \<open>init()\<close> succeeds the state becomes \<open>LOGGERS_READY\<close>; a subsequent \<open>go()\<close>
  whose broadcasts succeed makes it \<open>READY\<close> and starts the loop, which passes its
  initialisation; a \<open>go()\<close> with a failing \<open>setField\<close> hook leaves the state
  \<open>LOGGERS_READY\<close> and does not start the loop.
\<close>

lemma logger_init_decides_start:
  assumes i: "init env source version loggers options moduleLoaded = Inr st1"
    and d: "useDisabler options \<longrightarrow> storage_defined env"
    and t: "ThrowsSync \<notin> set (hooksOf init_hook loggers)"
  shows "(Rejects \<in> set (hooksOf init_hook loggers) \<longrightarrow>
            initialized st1 = ERROR
            \<and> \<not> loopStarted (go retrying sending st1)
            \<and> (list_all (\<lambda>r. r = Fulfils) (hooksOf setField_hook loggers) \<longrightarrow>
                  initialized (go retrying sending st1) = ERROR
                  \<and> errorLog (go retrying sending st1)
                      = errorLog st1 @ snd (compileMetadata (metadataTasks options))
                        @ [''Cannot start dequeue loop: logger initialization failed'']))
       \<and> (Rejects \<notin> set (hooksOf init_hook loggers) \<longrightarrow>
            initialized st1 = LOGGERS_READY
            \<and> (list_all (\<lambda>r. r = Fulfils) (hooksOf setField_hook loggers) \<longrightarrow>
                  initialized (go retrying sending st1) = READY
                  \<and> loopStarted (go retrying sending st1)
                  \<and> (\<exists>q1. queue (go retrying sending st1) = Some q1 \<and> status q1 = Idle))
            \<and> (\<not> list_all (\<lambda>r. r = Fulfils) (hooksOf setField_hook loggers) \<longrightarrow>
                  initialized (go retrying sending st1) = LOGGERS_READY
                  \<and> \<not> loopStarted (go retrying sending st1)))"
proof -
  from init_state [OF i d] t
  have ok: "currentState st1 = Pending_ok"
    and st: "initialized st1 = (if Rejects \<in> set (hooksOf init_hook loggers) then ERROR
                                else LOGGERS_READY)"
    and l: "loggersEnabled st1 = loggers"
    and pm: "pendingMetadata st1 = metadataTasks options"
    and "\<exists>q. queue st1 = Some q \<and> \<not> run q"
    by simp_all
  then obtain q where q: "queue st1 = Some q" and r: "\<not> run q" by blast
  note g = go_state [OF ok q r, of retrying sending, unfolded l pm]
  show ?thesis
  proof (cases "Rejects \<in> set (hooksOf init_hook loggers)")
    case True
    with st have e: "initialized st1 = ERROR" by simp
    show ?thesis
    proof (cases "list_all (\<lambda>r. r = Fulfils) (hooksOf setField_hook loggers)")
      case all: True
      with g e True show ?thesis by simp
    next
      case False
      with g e True show ?thesis by simp
    qed
  next
    case False
    with st have e: "initialized st1 = LOGGERS_READY" by simp
    show ?thesis
    proof (cases "list_all (\<lambda>r. r = Fulfils) (hooksOf setField_hook loggers)")
      case all: True
      with g e False show ?thesis by simp
    next
      case nall: False
      with g e False show ?thesis by simp
    qed
  qed
qed

lemma logger_init_examples:
  "init browserPage ''S'' ''V'' [acceptingSink, unreachableSink] failingTask moduleLoaded
     = Inr (afterInitWith failingTask [acceptingSink, unreachableSink])
   \<and> initialized (afterInitWith failingTask [acceptingSink, unreachableSink]) = ERROR
   \<and> \<not> loopStarted (go always accepting (afterInitWith failingTask [acceptingSink, unreachableSink]))
   \<and> errorLog (go always accepting (afterInitWith failingTask [acceptingSink, unreachableSink]))
       = [''Error resolving logger initializers:'',
          ''Error in initialization task bad:'',
          ''Cannot start dequeue loop: logger initialization failed'']
   \<and> init browserPage ''S'' ''V'' [plainSink, acceptingSink] defaults moduleLoaded
       = Inr (afterInit [plainSink, acceptingSink])
   \<and> initialized (afterInit [plainSink, acceptingSink]) = LOGGERS_READY
   \<and> initialized (go always accepting (afterInit [plainSink, acceptingSink])) = READY
   \<and> loopStarted (go always accepting (afterInit [plainSink, acceptingSink]))"
  by code_simp

text \<open>
  No step of the pipeline has a rejection handler. With one sink whose \<open>init()\<close>
  succeeds and whose \<open>setField\<close> is rejected, the first step of \<open>go()\<close> rejects the
  pipeline: the state stays \<open>LOGGERS_READY\<close> and the loop is never started.
\<close>

lemma rejected_setField_blocks_go:
  "init browserPage ''S'' ''V'' [deafSink] defaults moduleLoaded = Inr (afterInit [deafSink])
   \<and> hooksOf init_hook [deafSink] = [Fulfils]
   \<and> initialized (afterInit [deafSink]) = LOGGERS_READY
   \<and> initialized (go always accepting (afterInit [deafSink])) = LOGGERS_READY
   \<and> \<not> loopStarted (go always accepting (afterInit [deafSink]))"
  by code_simp

text \<open>
  Claim C8. The claim fails for a sink whose \<open>init()\<close> throws instead of returning a
  rejected promise. \<open>initializeLoggers\<close> calls the hooks in \<open>.map(logger => logger.init())\<close>
  before its \<open>try\<close> block, so the \<open>catch\<close> that sets \<open>ERROR\<close> and reports never sees the
  fault: the step itself rejects, the state stays \<open>IN_PROGRESS\<close> whatever the other
  sinks do, nothing is reported, and a subsequent \<open>go()\<close> changes nothing: it neither
  reports the error nor makes the state \<open>ERROR\<close> (the loop is not started).
\<close>

theorem C8_throwing_init_is_not_caught:
  assumes i: "init env source version loggers options moduleLoaded = Inr st1"
    and d: "useDisabler options \<longrightarrow> storage_defined env"
    and t: "ThrowsSync \<in> set (hooksOf init_hook loggers)"
  shows "initialized st1 = IN_PROGRESS
       \<and> initialized st1 \<noteq> ERROR
       \<and> currentState st1 = Pending_rejected
       \<and> errorLog st1 = []
       \<and> go retrying sending st1 = st1
       \<and> \<not> loopStarted (go retrying sending st1)"
proof -
  from init_state [OF i d] t
  have s: "initialized st1 = IN_PROGRESS" and c: "currentState st1 = Pending_rejected"
    and e: "errorLog st1 = []" and "\<exists>q. queue st1 = Some q \<and> \<not> run q"
    by simp_all
  then obtain q where q: "queue st1 = Some q" and r: "\<not> run q" by blast
  from c have g: "go retrying sending st1 = st1"
    by (simp add: go_def Let_def lockFields_def thenStep_def)
  from q r have "\<not> loopStarted st1"
    by (simp add: loopStarted_def)
  with s c e g show ?thesis by simp
qed

theorem C8_throwing_init_witness:
  "init browserPage ''S'' ''V'' [unreachableSink, brokenSink] defaults moduleLoaded
     = Inr (afterInit [unreachableSink, brokenSink])
   \<and> hooksOf init_hook [unreachableSink, brokenSink] = [Rejects, ThrowsSync]
   \<and> initialized (afterInit [unreachableSink, brokenSink]) = IN_PROGRESS
   \<and> errorLog (afterInit [unreachableSink, brokenSink]) = []
   \<and> go always accepting (afterInit [unreachableSink, brokenSink])
       = afterInit [unreachableSink, brokenSink]
   \<and> \<not> loopStarted (go always accepting (afterInit [unreachableSink, brokenSink]))"
proof -
  have i: "init browserPage ''S'' ''V'' [unreachableSink, brokenSink] defaults moduleLoaded
             = Inr (afterInit [unreachableSink, brokenSink])"
    by (simp add: afterInit_def init_def newQueue_def autodetect_def browserPage_def defaults_def)
  have d: "useDisabler defaults \<longrightarrow> storage_defined browserPage"
    by (simp add: browserPage_def)
  have h: "hooksOf init_hook [unreachableSink, brokenSink] = [Rejects, ThrowsSync]"
    by (simp add: unreachableSink_def brokenSink_def)
  have t: "ThrowsSync \<in> set (hooksOf init_hook [unreachableSink, brokenSink])"
    unfolding h by simp
  from C8_throwing_init_is_not_caught [OF i d t, of always accepting] i h
  show ?thesis
    by blast
qed

section \<open>Reconnect delay\<close>

lemma backoff_below_cap:
  "n < 10 \<Longrightarrow> calculateExponentialBackoff n = 1000 * 2 ^ n"
proof -
  assume "n < 10"
  then have "(2::int) ^ n \<le> 2 ^ 9"
    by (intro power_increasing) auto
  then show ?thesis
    by (simp add: calculateExponentialBackoff_def)
qed

lemma backoff_at_cap:
  "10 \<le> n \<Longrightarrow> calculateExponentialBackoff n = 900000"
proof -
  assume "10 \<le> n"
  then have "(2::int) ^ 10 \<le> 2 ^ n"
    by (intro power_increasing) auto
  then show ?thesis
    by (simp add: calculateExponentialBackoff_def)
qed

lemma backoff_mono:
  "m \<le> n \<Longrightarrow> calculateExponentialBackoff m \<le> calculateExponentialBackoff n"
proof -
  assume "m \<le> n"
  then have "(2::int) ^ m \<le> 2 ^ n"
    by (intro power_increasing) auto
  then show ?thesis
    by (simp add: calculateExponentialBackoff_def min_le_iff_disj)
qed

text \<open>
  Claim C7. The reconnect delay is \<open>min(1000 * 2^n, 900000)\<close> milliseconds for every failure
  count \<open>n\<close>; it never decreases when \<open>n\<close> grows, and it is exactly 900000 from \<open>n = 10\<close> on.
\<close>

theorem C7_backoff_formula_mono_cap:
  "calculateExponentialBackoff n = min (1000 * 2 ^ n) 900000
   \<and> (\<forall>m. m \<le> n \<longrightarrow> calculateExponentialBackoff m \<le> calculateExponentialBackoff n)
   \<and> (10 \<le> n \<longrightarrow> calculateExponentialBackoff n = 900000)"
  using backoff_mono backoff_at_cap
  by (simp add: calculateExponentialBackoff_def)

theorem C7_backoff_witness:
  "calculateExponentialBackoff 12 = min (1000 * 2 ^ 12) 900000
   \<and> calculateExponentialBackoff 9 \<le> calculateExponentialBackoff 12
   \<and> calculateExponentialBackoff 9 = 512000
   \<and> (10::nat) \<le> 12 \<and> calculateExponentialBackoff 12 = 900000"
  using C7_backoff_formula_mono_cap [of 12]
  by (simp add: calculateExponentialBackoff_def)

end
